theory Spec2Isabelle
  imports Main "HOL-Library.Word" "HOL-Library.AList" "HOL-Library.Multiset"
begin

section \<open>Lock manager (concurrency/lock\_manager.cpp)\<close>

text \<open>
  The lock manager is embedded sequentially: every function of the source that runs
  under a queue latch is one HOL function from the state before to the state after.
  A thrown exception is the left summand of the result; the transaction it aborts is
  returned with its state set, as the source sets it before the throw.
\<close>

type_synonym txn_id_t = int
type_synonym table_oid_t = nat
type_synonym RID = "int \<times> nat"

definition INVALID_TXN_ID :: txn_id_t where
  "INVALID_TXN_ID = -1"

datatype LockMode =
  SHARED | EXCLUSIVE | INTENTION_SHARED | INTENTION_EXCLUSIVE | SHARED_INTENTION_EXCLUSIVE

datatype TransactionState = GROWING | SHRINKING | COMMITTED | ABORTED

datatype IsolationLevel = READ_UNCOMMITTED | REPEATABLE_READ | READ_COMMITTED

datatype AbortReason =
  LOCK_ON_SHRINKING
  | UPGRADE_CONFLICT
  | LOCK_SHARED_ON_READ_UNCOMMITTED
  | TABLE_LOCK_NOT_PRESENT
  | ATTEMPTED_INTENTION_LOCK_ON_ROW
  | TABLE_UNLOCKED_BEFORE_UNLOCKING_ROWS
  | INCOMPATIBLE_UPGRADE
  | ATTEMPTED_UNLOCK_BUT_NO_LOCK_HELD

text \<open>What a call of the lock manager can throw: \<^verbatim>\<open>std::logic_error\<close> or a
  \<^verbatim>\<open>TransactionAbortException\<close> carrying its reason.\<close>

datatype lock_exception = logic_error | TransactionAbortException AbortReason

text \<open>How a locking call ends: it throws, it returns a boolean, or it is left waiting
  on the queue's condition variable (the request stays in the queue, ungranted).\<close>

datatype lock_result = Throws lock_exception | Returns bool | Blocks

record LockRequest =
  txn_id :: txn_id_t
  lock_mode :: LockMode
  oid :: table_oid_t
  rid :: "RID option"
  granted :: bool

record LockRequestQueue =
  request_queue :: "LockRequest list"
  upgrading :: txn_id_t

record Transaction =
  transaction_id :: txn_id_t
  txn_state :: TransactionState
  isolation_level :: IsolationLevel
  shared_table_lock_set :: "table_oid_t set"
  exclusive_table_lock_set :: "table_oid_t set"
  intention_shared_table_lock_set :: "table_oid_t set"
  intention_exclusive_table_lock_set :: "table_oid_t set"
  shared_intention_exclusive_table_lock_set :: "table_oid_t set"
  shared_row_lock_set :: "table_oid_t \<Rightarrow> RID set"
  exclusive_row_lock_set :: "table_oid_t \<Rightarrow> RID set"

definition new_table_request :: "txn_id_t \<Rightarrow> LockMode \<Rightarrow> table_oid_t \<Rightarrow> LockRequest" where
  "new_table_request t m o_id =
     \<lparr>txn_id = t, lock_mode = m, oid = o_id, rid = None, granted = False\<rparr>"

definition new_row_request ::
  "txn_id_t \<Rightarrow> LockMode \<Rightarrow> table_oid_t \<Rightarrow> RID \<Rightarrow> LockRequest" where
  "new_row_request t m o_id r =
     \<lparr>txn_id = t, lock_mode = m, oid = o_id, rid = Some r, granted = False\<rparr>"

definition empty_queue :: LockRequestQueue where
  "empty_queue = \<lparr>request_queue = [], upgrading = INVALID_TXN_ID\<rparr>"

subsection \<open>Upgrade and compatibility matrices\<close>

definition IsCompatible :: "LockMode \<Rightarrow> LockMode \<Rightarrow> bool" where
  "IsCompatible lock_mode_before lock_mode_after =
     (if lock_mode_before = SHARED \<and>
         (lock_mode_after = EXCLUSIVE \<or> lock_mode_after = SHARED_INTENTION_EXCLUSIVE) then True
      else if lock_mode_before = INTENTION_EXCLUSIVE \<and>
         (lock_mode_after = EXCLUSIVE \<or> lock_mode_after = SHARED_INTENTION_EXCLUSIVE) then True
      else if lock_mode_before = INTENTION_SHARED \<and>
         (lock_mode_after = SHARED \<or> lock_mode_after = EXCLUSIVE \<or>
          lock_mode_after = INTENTION_EXCLUSIVE \<or> lock_mode_after = SHARED_INTENTION_EXCLUSIVE)
        then True
      else if lock_mode_before = SHARED_INTENTION_EXCLUSIVE \<and> lock_mode_after = EXCLUSIVE
        then True
      else False)"

definition GrantCompatiable :: "LockMode \<Rightarrow> LockMode \<Rightarrow> bool" where
  "GrantCompatiable lock_mode_first lock_mode_second =
     (if lock_mode_first = EXCLUSIVE \<or> lock_mode_second = EXCLUSIVE then False
      else if (lock_mode_first = SHARED \<and> lock_mode_second = INTENTION_EXCLUSIVE) \<or>
              (lock_mode_first = INTENTION_EXCLUSIVE \<and> lock_mode_second = SHARED) then False
      else if (lock_mode_first = SHARED_INTENTION_EXCLUSIVE \<and>
                 lock_mode_second \<noteq> INTENTION_SHARED) \<or>
              (lock_mode_first \<noteq> INTENTION_SHARED \<and>
                 lock_mode_second = SHARED_INTENTION_EXCLUSIVE) then False
      else True)"

definition UnLockChangeState :: "Transaction \<Rightarrow> LockMode \<Rightarrow> Transaction" where
  "UnLockChangeState txn m =
     (if txn_state txn \<noteq> GROWING then txn
      else if isolation_level txn = REPEATABLE_READ \<and> (m = SHARED \<or> m = EXCLUSIVE)
        then txn\<lparr>txn_state := SHRINKING\<rparr>
      else if isolation_level txn = READ_COMMITTED \<and> m = EXCLUSIVE
        then txn\<lparr>txn_state := SHRINKING\<rparr>
      else if isolation_level txn = READ_UNCOMMITTED \<and> m = EXCLUSIVE
        then txn\<lparr>txn_state := SHRINKING\<rparr>
      else txn)"

subsection \<open>Book keeping of a transaction's lock sets\<close>

fun BookKeeping_table :: "Transaction \<Rightarrow> LockMode \<Rightarrow> table_oid_t \<Rightarrow> Transaction" where
  "BookKeeping_table txn EXCLUSIVE o_id =
     txn\<lparr>exclusive_table_lock_set := insert o_id (exclusive_table_lock_set txn)\<rparr>"
| "BookKeeping_table txn SHARED o_id =
     txn\<lparr>shared_table_lock_set := insert o_id (shared_table_lock_set txn)\<rparr>"
| "BookKeeping_table txn INTENTION_EXCLUSIVE o_id =
     txn\<lparr>intention_exclusive_table_lock_set :=
           insert o_id (intention_exclusive_table_lock_set txn)\<rparr>"
| "BookKeeping_table txn INTENTION_SHARED o_id =
     txn\<lparr>intention_shared_table_lock_set := insert o_id (intention_shared_table_lock_set txn)\<rparr>"
| "BookKeeping_table txn SHARED_INTENTION_EXCLUSIVE o_id =
     txn\<lparr>shared_intention_exclusive_table_lock_set :=
           insert o_id (shared_intention_exclusive_table_lock_set txn)\<rparr>"

fun BookKeepingRemove_table :: "Transaction \<Rightarrow> LockMode \<Rightarrow> table_oid_t \<Rightarrow> Transaction" where
  "BookKeepingRemove_table txn EXCLUSIVE o_id =
     txn\<lparr>exclusive_table_lock_set := exclusive_table_lock_set txn - {o_id}\<rparr>"
| "BookKeepingRemove_table txn SHARED o_id =
     txn\<lparr>shared_table_lock_set := shared_table_lock_set txn - {o_id}\<rparr>"
| "BookKeepingRemove_table txn INTENTION_EXCLUSIVE o_id =
     txn\<lparr>intention_exclusive_table_lock_set := intention_exclusive_table_lock_set txn - {o_id}\<rparr>"
| "BookKeepingRemove_table txn INTENTION_SHARED o_id =
     txn\<lparr>intention_shared_table_lock_set := intention_shared_table_lock_set txn - {o_id}\<rparr>"
| "BookKeepingRemove_table txn SHARED_INTENTION_EXCLUSIVE o_id =
     txn\<lparr>shared_intention_exclusive_table_lock_set :=
           shared_intention_exclusive_table_lock_set txn - {o_id}\<rparr>"

definition BookKeeping_row ::
  "Transaction \<Rightarrow> LockMode \<Rightarrow> table_oid_t \<Rightarrow> RID \<Rightarrow> Transaction" where
  "BookKeeping_row txn m o_id r =
     (if m = EXCLUSIVE then
        txn\<lparr>exclusive_row_lock_set :=
              (exclusive_row_lock_set txn)(o_id := insert r (exclusive_row_lock_set txn o_id))\<rparr>
      else if m = SHARED then
        txn\<lparr>shared_row_lock_set :=
              (shared_row_lock_set txn)(o_id := insert r (shared_row_lock_set txn o_id))\<rparr>
      else txn)"

definition BookKeepingRemove_row ::
  "Transaction \<Rightarrow> LockMode \<Rightarrow> table_oid_t \<Rightarrow> RID \<Rightarrow> Transaction" where
  "BookKeepingRemove_row txn m o_id r =
     (if m = EXCLUSIVE then
        txn\<lparr>exclusive_row_lock_set :=
              (exclusive_row_lock_set txn)(o_id := exclusive_row_lock_set txn o_id - {r})\<rparr>
      else if m = SHARED then
        txn\<lparr>shared_row_lock_set :=
              (shared_row_lock_set txn)(o_id := shared_row_lock_set txn o_id - {r})\<rparr>
      else txn)"

subsection \<open>Queues: UpdateLock and GrantLock\<close>

text \<open>\<^verbatim>\<open>request_queue_.erase(iter)\<close> at the first request of a transaction.\<close>

fun erase_txn :: "txn_id_t \<Rightarrow> LockRequest list \<Rightarrow> LockRequest list" where
  "erase_txn t [] = []"
| "erase_txn t (r # rs) = (if txn_id r = t then rs else r # erase_txn t rs)"

text \<open>
  \<^verbatim>\<open>UpdateLock\<close> for a table queue: the first request of the transaction decides. The
  same mode returns at once; another mode is an upgrade (the old request leaves, the new
  one is appended, ungranted) when no upgrade is in flight and the matrix allows it, and
  an abort otherwise; with no request of the transaction a fresh one is appended.
\<close>

definition UpdateLock_table ::
  "Transaction \<Rightarrow> LockMode \<Rightarrow> table_oid_t \<Rightarrow> LockRequestQueue
     \<Rightarrow> (lock_exception + bool) \<times> Transaction \<times> LockRequestQueue" where
  "UpdateLock_table txn m o_id q =
     (case find (\<lambda>r. txn_id r = transaction_id txn) (request_queue q) of
        Some r \<Rightarrow>
          if lock_mode r = m then (Inr True, txn, q)
          else if upgrading q = INVALID_TXN_ID then
            if IsCompatible (lock_mode r) m then
              (Inr True,
               BookKeepingRemove_table txn (lock_mode r) o_id,
               \<lparr>request_queue = erase_txn (transaction_id txn) (request_queue q)
                                  @ [new_table_request (transaction_id txn) m o_id],
                upgrading = transaction_id txn\<rparr>)
            else (Inl (TransactionAbortException INCOMPATIBLE_UPGRADE),
                  txn\<lparr>txn_state := ABORTED\<rparr>, q)
          else (Inl (TransactionAbortException UPGRADE_CONFLICT),
                txn\<lparr>txn_state := ABORTED\<rparr>, q)
      | None \<Rightarrow>
          (Inr True, txn,
           q\<lparr>request_queue :=
                 request_queue q @ [new_table_request (transaction_id txn) m o_id]\<rparr>))"

text \<open>The row version removes the \<^emph>\<open>requested\<close> mode from the lock sets on an upgrade,
  as the source does.\<close>

definition UpdateLock_row ::
  "Transaction \<Rightarrow> LockMode \<Rightarrow> table_oid_t \<Rightarrow> RID \<Rightarrow> LockRequestQueue
     \<Rightarrow> (lock_exception + bool) \<times> Transaction \<times> LockRequestQueue" where
  "UpdateLock_row txn m o_id r_id q =
     (case find (\<lambda>r. txn_id r = transaction_id txn) (request_queue q) of
        Some r \<Rightarrow>
          if lock_mode r = m then (Inr True, txn, q)
          else if upgrading q = INVALID_TXN_ID then
            if IsCompatible (lock_mode r) m then
              (Inr True,
               BookKeepingRemove_row txn m o_id r_id,
               \<lparr>request_queue = erase_txn (transaction_id txn) (request_queue q)
                                  @ [new_row_request (transaction_id txn) m o_id r_id],
                upgrading = transaction_id txn\<rparr>)
            else (Inl (TransactionAbortException INCOMPATIBLE_UPGRADE),
                  txn\<lparr>txn_state := ABORTED\<rparr>, q)
          else (Inl (TransactionAbortException UPGRADE_CONFLICT),
                txn\<lparr>txn_state := ABORTED\<rparr>, q)
      | None \<Rightarrow>
          (Inr True, txn,
           q\<lparr>request_queue :=
                 request_queue q @ [new_row_request (transaction_id txn) m o_id r_id]\<rparr>))"

text \<open>Step 4 of \<^verbatim>\<open>GrantLock\<close>: the first request of the upgrading transaction is
  marked granted.\<close>

fun grant_first :: "txn_id_t \<Rightarrow> LockRequest list \<Rightarrow> LockRequest list" where
  "grant_first t [] = []"
| "grant_first t (r # rs) =
     (if txn_id r = t then r\<lparr>granted := True\<rparr> # rs else r # grant_first t rs)"

text \<open>
  The last loop of \<^verbatim>\<open>GrantLock\<close>: the queue is walked in order with the vector
  \<^verbatim>\<open>has_granted_lock_request\<close> and the flag; an ungranted request compatible with every
  request of the vector is granted and joins the vector.
\<close>

fun grant_scan ::
  "txn_id_t \<Rightarrow> LockRequest list \<Rightarrow> bool \<Rightarrow> LockRequest list \<Rightarrow> bool \<times> LockRequest list" where
  "grant_scan t has_granted flag [] = (flag, [])"
| "grant_scan t has_granted flag (r # rs) =
     (if \<not> granted r then
        if list_all (\<lambda>g. GrantCompatiable (lock_mode g) (lock_mode r)) has_granted then
          (let r' = r\<lparr>granted := True\<rparr>;
               (fl, rs') = grant_scan t (has_granted @ [r']) (flag \<or> txn_id r = t) rs
           in (fl, r' # rs'))
        else (let (fl, rs') = grant_scan t has_granted flag rs in (fl, r # rs'))
      else (let (fl, rs') = grant_scan t has_granted (flag \<or> txn_id r = t) rs
            in (fl, r # rs')))"

text \<open>\<^verbatim>\<open>GrantLock\<close>; the table and the row version have the same body, on the queue of
  the table or of the row.\<close>

definition GrantLock ::
  "txn_id_t \<Rightarrow> LockMode \<Rightarrow> LockRequestQueue \<Rightarrow> bool \<times> LockRequestQueue" where
  "GrantLock t m q =
     (let has_granted = filter granted (request_queue q) in
      if \<not> list_all (\<lambda>g. GrantCompatiable (lock_mode g) m) has_granted then (False, q)
      else if upgrading q = t \<and> find (\<lambda>r. txn_id r = t) (request_queue q) \<noteq> None then
        (True, \<lparr>request_queue = grant_first t (request_queue q), upgrading = INVALID_TXN_ID\<rparr>)
      else
        (let (fl, rq) = grant_scan t has_granted False (request_queue q)
         in (fl, q\<lparr>request_queue := rq\<rparr>)))"

subsection \<open>LockTable and LockRow\<close>

record LockManager =
  table_lock_map :: "(table_oid_t \<times> LockRequestQueue) list"
  row_lock_map :: "(RID \<times> LockRequestQueue) list"
  waits_for :: "txn_id_t \<Rightarrow> txn_id_t set"
  txn_id_set :: "txn_id_t \<Rightarrow> int"

text \<open>\<^verbatim>\<open>GetLRQueuePtr\<close>: the queue of a key, created empty when the map has none.\<close>

definition GetLRQueuePtr ::
  "'k \<Rightarrow> ('k \<times> LockRequestQueue) list
     \<Rightarrow> LockRequestQueue \<times> ('k \<times> LockRequestQueue) list" where
  "GetLRQueuePtr k m =
     (case map_of m k of
        Some q \<Rightarrow> (q, m)
      | None \<Rightarrow> (empty_queue, m @ [(k, empty_queue)]))"

definition abort_with ::
  "AbortReason \<Rightarrow> Transaction \<Rightarrow> LockManager \<Rightarrow> lock_result \<times> Transaction \<times> LockManager" where
  "abort_with reason txn lm =
     (Throws (TransactionAbortException reason), txn\<lparr>txn_state := ABORTED\<rparr>, lm)"

text \<open>
  Steps 4.2 to 4.5 of \<^verbatim>\<open>LockTable\<close>: the request enters the table's queue and
  \<^verbatim>\<open>GrantLock\<close> is tried once. When it fails the caller is left waiting
  (\<open>Blocks\<close>); \<open>wake_table\<close> below is one further turn of the waiting loop.
\<close>

definition enqueue_table ::
  "Transaction \<Rightarrow> LockMode \<Rightarrow> table_oid_t \<Rightarrow> LockManager
     \<Rightarrow> lock_result \<times> Transaction \<times> LockManager" where
  "enqueue_table txn m o_id lm =
     (let (q, tm) = GetLRQueuePtr o_id (table_lock_map lm);
          (res, txn1, q1) = UpdateLock_table txn m o_id q
      in case res of
           Inl e \<Rightarrow> (Throws e, txn1, lm\<lparr>table_lock_map := AList.update o_id q1 tm\<rparr>)
         | Inr ok \<Rightarrow>
             if \<not> ok then (Returns False, txn1, lm\<lparr>table_lock_map := AList.update o_id q1 tm\<rparr>)
             else
               (let (g, q2) = GrantLock (transaction_id txn) m q1;
                    lm2 = lm\<lparr>table_lock_map := AList.update o_id q2 tm\<rparr>
                in if g then (Returns True, BookKeeping_table txn1 m o_id, lm2)
                   else (Blocks, txn1, lm2)))"

definition wake_queue ::
  "Transaction \<Rightarrow> LockMode \<Rightarrow> LockRequestQueue \<Rightarrow> lock_result \<times> LockRequestQueue" where
  "wake_queue txn m q =
     (let t = transaction_id txn;
          q1 = (if txn_state txn = ABORTED \<and> upgrading q = t
                then q\<lparr>upgrading := INVALID_TXN_ID\<rparr> else q)
      in if txn_state txn = ABORTED \<and> find (\<lambda>r. txn_id r = t) (request_queue q1) \<noteq> None
         then (Returns False, q1\<lparr>request_queue := erase_txn t (request_queue q1)\<rparr>)
         else (let (g, q2) = GrantLock t m q1
               in (if g then Returns True else Blocks, q2)))"

definition wake_table ::
  "Transaction \<Rightarrow> LockMode \<Rightarrow> table_oid_t \<Rightarrow> LockManager
     \<Rightarrow> lock_result \<times> Transaction \<times> LockManager" where
  "wake_table txn m o_id lm =
     (let (q, tm) = GetLRQueuePtr o_id (table_lock_map lm);
          (res, q1) = wake_queue txn m q;
          lm1 = lm\<lparr>table_lock_map := AList.update o_id q1 tm\<rparr>
      in (res, if res = Returns True then BookKeeping_table txn m o_id else txn, lm1))"

definition LockTable ::
  "Transaction \<Rightarrow> LockMode \<Rightarrow> table_oid_t \<Rightarrow> LockManager
     \<Rightarrow> lock_result \<times> Transaction \<times> LockManager" where
  "LockTable txn m o_id lm =
     (if txn_state txn = COMMITTED \<or> txn_state txn = ABORTED then (Throws logic_error, txn, lm)
      else if txn_state txn = GROWING then
        if isolation_level txn = READ_UNCOMMITTED \<and>
           (m = SHARED \<or> m = INTENTION_SHARED \<or> m = SHARED_INTENTION_EXCLUSIVE)
        then abort_with LOCK_SHARED_ON_READ_UNCOMMITTED txn lm
        else enqueue_table txn m o_id lm
      else if txn_state txn = SHRINKING then
        if isolation_level txn = REPEATABLE_READ then abort_with LOCK_ON_SHRINKING txn lm
        else if isolation_level txn = READ_UNCOMMITTED then
          if m = EXCLUSIVE \<or> m = INTENTION_EXCLUSIVE then abort_with LOCK_ON_SHRINKING txn lm
          else abort_with LOCK_SHARED_ON_READ_UNCOMMITTED txn lm
        else if isolation_level txn = READ_COMMITTED then
          if m = SHARED \<or> m = INTENTION_SHARED then enqueue_table txn m o_id lm
          else abort_with LOCK_ON_SHRINKING txn lm
        else (Returns True, txn, lm)
      else (Returns True, txn, lm))"

text \<open>\<^verbatim>\<open>IsTableFit\<close>: only the check for an exclusive row lock is active in the source;
  \<open>None\<close> means it returned without throwing.\<close>

definition IsTableFit :: "Transaction \<Rightarrow> LockMode \<Rightarrow> table_oid_t \<Rightarrow> AbortReason option" where
  "IsTableFit txn m o_id =
     (if m = EXCLUSIVE \<and>
         \<not> (o_id \<in> intention_exclusive_table_lock_set txn \<or>
            o_id \<in> exclusive_table_lock_set txn \<or>
            o_id \<in> shared_intention_exclusive_table_lock_set txn)
      then Some TABLE_LOCK_NOT_PRESENT else None)"

definition enqueue_row ::
  "Transaction \<Rightarrow> LockMode \<Rightarrow> table_oid_t \<Rightarrow> RID \<Rightarrow> LockManager
     \<Rightarrow> lock_result \<times> Transaction \<times> LockManager" where
  "enqueue_row txn m o_id r_id lm =
     (let (q, rm) = GetLRQueuePtr r_id (row_lock_map lm);
          (res, txn1, q1) = UpdateLock_row txn m o_id r_id q
      in case res of
           Inl e \<Rightarrow> (Throws e, txn1, lm\<lparr>row_lock_map := AList.update r_id q1 rm\<rparr>)
         | Inr ok \<Rightarrow>
             if \<not> ok then (Returns False, txn1, lm\<lparr>row_lock_map := AList.update r_id q1 rm\<rparr>)
             else
               (let (g, q2) = GrantLock (transaction_id txn) m q1;
                    lm2 = lm\<lparr>row_lock_map := AList.update r_id q2 rm\<rparr>
                in if g then (Returns True, BookKeeping_row txn1 m o_id r_id, lm2)
                   else (Blocks, txn1, lm2)))"

text \<open>The branch of \<^verbatim>\<open>LockRow\<close> for a shrinking READ\_COMMITTED transaction calls the
  \<^emph>\<open>table\<close> versions of \<^verbatim>\<open>UpdateLock\<close>, \<^verbatim>\<open>GetLRQueuePtr\<close> and
  \<^verbatim>\<open>GrantLock\<close> with the table id, and then records a row lock.\<close>

definition enqueue_row_shrinking ::
  "Transaction \<Rightarrow> LockMode \<Rightarrow> table_oid_t \<Rightarrow> RID \<Rightarrow> LockManager
     \<Rightarrow> lock_result \<times> Transaction \<times> LockManager" where
  "enqueue_row_shrinking txn m o_id r_id lm =
     (let (q, tm) = GetLRQueuePtr o_id (table_lock_map lm);
          (res, txn1, q1) = UpdateLock_table txn m o_id q
      in case res of
           Inl e \<Rightarrow> (Throws e, txn1, lm\<lparr>table_lock_map := AList.update o_id q1 tm\<rparr>)
         | Inr ok \<Rightarrow>
             if \<not> ok then (Returns False, txn1, lm\<lparr>table_lock_map := AList.update o_id q1 tm\<rparr>)
             else
               (let (g, q2) = GrantLock (transaction_id txn) m q1;
                    lm2 = lm\<lparr>table_lock_map := AList.update o_id q2 tm\<rparr>
                in if g then (Returns True, BookKeeping_row txn1 m o_id r_id, lm2)
                   else (Blocks, txn1, lm2)))"

definition LockRow ::
  "Transaction \<Rightarrow> LockMode \<Rightarrow> table_oid_t \<Rightarrow> RID \<Rightarrow> LockManager
     \<Rightarrow> lock_result \<times> Transaction \<times> LockManager" where
  "LockRow txn m o_id r_id lm =
     (case IsTableFit txn m o_id of
        Some reason \<Rightarrow> abort_with reason txn lm
      | None \<Rightarrow>
     if m = INTENTION_SHARED \<or> m = INTENTION_EXCLUSIVE \<or> m = SHARED_INTENTION_EXCLUSIVE
       then (Throws logic_error, txn, lm)
     else if txn_state txn = COMMITTED \<or> txn_state txn = ABORTED
       then (Throws logic_error, txn, lm)
     else if txn_state txn = GROWING then
       if isolation_level txn = READ_UNCOMMITTED \<and> m \<noteq> EXCLUSIVE
       then abort_with LOCK_SHARED_ON_READ_UNCOMMITTED txn lm
       else enqueue_row txn m o_id r_id lm
     else if txn_state txn = SHRINKING then
       if isolation_level txn = REPEATABLE_READ then abort_with LOCK_ON_SHRINKING txn lm
       else if isolation_level txn = READ_UNCOMMITTED then
         if m = EXCLUSIVE then abort_with LOCK_ON_SHRINKING txn lm
         else abort_with LOCK_SHARED_ON_READ_UNCOMMITTED txn lm
       else if isolation_level txn = READ_COMMITTED then
         if m = SHARED then enqueue_row_shrinking txn m o_id r_id lm
         else abort_with LOCK_ON_SHRINKING txn lm
       else (Returns True, txn, lm)
     else (Returns True, txn, lm))"

text \<open>A call is \<^emph>\<open>admitted\<close> when it passes the checks on the transaction's state and
  isolation level, that is, when it does not end by throwing.\<close>

definition admitted :: "lock_result \<times> Transaction \<times> LockManager \<Rightarrow> bool" where
  "admitted out = (case fst out of Throws e \<Rightarrow> False | _ \<Rightarrow> True)"

definition empty_lock_manager :: LockManager where
  "empty_lock_manager =
     \<lparr>table_lock_map = [], row_lock_map = [], waits_for = (\<lambda>t. {}), txn_id_set = (\<lambda>t. 0)\<rparr>"

definition new_transaction :: "txn_id_t \<Rightarrow> IsolationLevel \<Rightarrow> Transaction" where
  "new_transaction t lvl =
     \<lparr>transaction_id = t, txn_state = GROWING, isolation_level = lvl,
      shared_table_lock_set = {}, exclusive_table_lock_set = {},
      intention_shared_table_lock_set = {}, intention_exclusive_table_lock_set = {},
      shared_intention_exclusive_table_lock_set = {},
      shared_row_lock_set = (\<lambda>t. {}), exclusive_row_lock_set = (\<lambda>t. {})\<rparr>"

subsection \<open>UnlockTable and UnlockRow\<close>

text \<open>The loop of \<^verbatim>\<open>UnlockTable\<close> and \<^verbatim>\<open>UnlockRow\<close>: the first request of the
  transaction that is granted is erased from the queue.\<close>

fun erase_granted :: "txn_id_t \<Rightarrow> LockRequest list \<Rightarrow> LockRequest list" where
  "erase_granted t [] = []"
| "erase_granted t (r # rs) =
     (if txn_id r = t \<and> granted r then rs else r # erase_granted t rs)"

definition UnlockTable ::
  "Transaction \<Rightarrow> table_oid_t \<Rightarrow> LockManager \<Rightarrow> lock_result \<times> Transaction \<times> LockManager" where
  "UnlockTable txn o_id lm =
     (if exclusive_row_lock_set txn o_id \<noteq> {} \<or> shared_row_lock_set txn o_id \<noteq> {}
      then abort_with TABLE_UNLOCKED_BEFORE_UNLOCKING_ROWS txn lm
      else
        (let (q, tm) = GetLRQueuePtr o_id (table_lock_map lm);
             lm1 = lm\<lparr>table_lock_map := tm\<rparr>
         in case find (\<lambda>r. txn_id r = transaction_id txn \<and> granted r) (request_queue q) of
              Some r \<Rightarrow>
                (Returns True,
                 BookKeepingRemove_table (UnLockChangeState txn (lock_mode r)) (lock_mode r) o_id,
                 lm\<lparr>table_lock_map :=
                      AList.update o_id
                        (q\<lparr>request_queue := erase_granted (transaction_id txn) (request_queue q)\<rparr>)
                        tm\<rparr>)
            | None \<Rightarrow> abort_with ATTEMPTED_UNLOCK_BUT_NO_LOCK_HELD txn lm1))"

definition UnlockRow ::
  "Transaction \<Rightarrow> table_oid_t \<Rightarrow> RID \<Rightarrow> LockManager
     \<Rightarrow> lock_result \<times> Transaction \<times> LockManager" where
  "UnlockRow txn o_id r_id lm =
     (let (q, rm) = GetLRQueuePtr r_id (row_lock_map lm);
          lm1 = lm\<lparr>row_lock_map := rm\<rparr>
      in case find (\<lambda>r. txn_id r = transaction_id txn \<and> granted r) (request_queue q) of
           Some r \<Rightarrow>
             (Returns True,
              BookKeepingRemove_row (UnLockChangeState txn (lock_mode r)) (lock_mode r) o_id r_id,
              lm\<lparr>row_lock_map :=
                   AList.update r_id
                     (q\<lparr>request_queue := erase_granted (transaction_id txn) (request_queue q)\<rparr>)
                     rm\<rparr>)
         | None \<Rightarrow> abort_with ATTEMPTED_UNLOCK_BUT_NO_LOCK_HELD txn lm1)"

subsection \<open>Compatibility of the granted requests of a queue\<close>

text \<open>Any two entries of a list of modes, at different positions, are compatible.\<close>

fun pairwise_compatible :: "LockMode list \<Rightarrow> bool" where
  "pairwise_compatible [] = True"
| "pairwise_compatible (m # ms) = (list_all (GrantCompatiable m) ms \<and> pairwise_compatible ms)"

definition granted_compatible :: "LockRequest list \<Rightarrow> bool" where
  "granted_compatible rq = pairwise_compatible (map lock_mode (filter granted rq))"

text \<open>
  The life of one queue. Next to the queue stands the map \<open>w\<close> of the calls in flight:
  \<open>w t = Some m\<close> when transaction \<open>t\<close> is inside \<^verbatim>\<open>LockTable\<close> or \<^verbatim>\<open>LockRow\<close> with
  mode \<open>m\<close>, between its \<^verbatim>\<open>UpdateLock\<close> and its return. Every step is one critical
  section of the source under the queue's latch, so the steps of different transactions
  interleave freely; a transaction is one thread and has at most one call in flight.
  \<^item> \<open>request\<close>: \<^verbatim>\<open>UpdateLock\<close> of a table or of a row succeeded;
  \<^item> \<open>attempt\<close>: one call of \<^verbatim>\<open>GrantLock\<close> by the waiting transaction;
  \<^item> \<open>wake\<close>: one turn of the waiting loop after the condition variable, in which an
    aborted transaction withdraws its request;
  \<^item> \<open>unlock\<close>: \<^verbatim>\<open>UnlockTable\<close> or \<^verbatim>\<open>UnlockRow\<close> erased a granted request.
\<close>

inductive queue_reachable :: "LockRequestQueue \<Rightarrow> (txn_id_t \<Rightarrow> LockMode option) \<Rightarrow> bool" where
  init: "queue_reachable empty_queue (\<lambda>t. None)"
| request_table:
    "queue_reachable q w \<Longrightarrow> w (transaction_id txn) = None \<Longrightarrow>
     UpdateLock_table txn m o_id q = (Inr True, txn1, q1) \<Longrightarrow>
     queue_reachable q1 (w(transaction_id txn \<mapsto> m))"
| request_row:
    "queue_reachable q w \<Longrightarrow> w (transaction_id txn) = None \<Longrightarrow>
     UpdateLock_row txn m o_id r_id q = (Inr True, txn1, q1) \<Longrightarrow>
     queue_reachable q1 (w(transaction_id txn \<mapsto> m))"
| attempt:
    "queue_reachable q w \<Longrightarrow> w t = Some m \<Longrightarrow> GrantLock t m q = (g, q1) \<Longrightarrow>
     queue_reachable q1 (if g then w(t := None) else w)"
| wake:
    "queue_reachable q w \<Longrightarrow> w (transaction_id txn) = Some m \<Longrightarrow>
     wake_queue txn m q = (res, q1) \<Longrightarrow>
     queue_reachable q1 (if res = Blocks then w else w(transaction_id txn := None))"
| unlock:
    "queue_reachable q w \<Longrightarrow> w t = None \<Longrightarrow>
     queue_reachable (q\<lparr>request_queue := erase_granted t (request_queue q)\<rparr>) w"

subsection \<open>Building the waits-for graph\<close>

definition AddEdge :: "txn_id_t \<Rightarrow> txn_id_t \<Rightarrow> LockManager \<Rightarrow> LockManager" where
  "AddEdge t1 t2 lm =
     lm\<lparr>waits_for := (waits_for lm)(t1 := insert t2 (waits_for lm t1)),
        txn_id_set := (txn_id_set lm)(t1 := 1, t2 := 1)\<rparr>"

text \<open>
  Step 2 of \<^verbatim>\<open>RunCycleDetection\<close>. For one queue the source runs two nested loops:
  \<open>iter_first\<close> over the queue and \<open>iter_second\<close> over the requests behind it. The
  body of the table queues and the body of the row queues differ in the arguments of
  \<^verbatim>\<open>AddEdge\<close>, so each has its own pair of functions.
\<close>

fun table_edges_second :: "LockRequest \<Rightarrow> LockRequest list \<Rightarrow> LockManager \<Rightarrow> LockManager" where
  "table_edges_second first [] lm = lm"
| "table_edges_second first (second # rest) lm =
     table_edges_second first rest
       (if ((granted first \<and> \<not> granted second) \<or> (\<not> granted first \<and> granted second)) \<and>
           \<not> GrantCompatiable (lock_mode first) (lock_mode second)
        then (if granted first then AddEdge (txn_id second) (txn_id first) lm
              else AddEdge (txn_id first) (txn_id second) lm)
        else lm)"

fun table_edges :: "LockRequest list \<Rightarrow> LockManager \<Rightarrow> LockManager" where
  "table_edges [] lm = lm"
| "table_edges (first # rest) lm = table_edges rest (table_edges_second first rest lm)"

fun row_edges_second :: "LockRequest \<Rightarrow> LockRequest list \<Rightarrow> LockManager \<Rightarrow> LockManager" where
  "row_edges_second first [] lm = lm"
| "row_edges_second first (second # rest) lm =
     row_edges_second first rest
       (if ((granted first \<and> \<not> granted second) \<or> (\<not> granted first \<and> granted second)) \<and>
           \<not> GrantCompatiable (lock_mode first) (lock_mode second)
        then (if granted first then AddEdge (txn_id first) (txn_id second) lm
              else AddEdge (txn_id second) (txn_id first) lm)
        else lm)"

fun row_edges :: "LockRequest list \<Rightarrow> LockManager \<Rightarrow> LockManager" where
  "row_edges [] lm = lm"
| "row_edges (first # rest) lm = row_edges rest (row_edges_second first rest lm)"

text \<open>The graph of one round of the detector: the edges of every table queue, then the
  edges of every row queue, added to the graph the manager holds.\<close>

definition build_waits_for :: "LockManager \<Rightarrow> LockManager" where
  "build_waits_for lm =
     fold (\<lambda>(r, q). row_edges (request_queue q)) (row_lock_map lm)
       (fold (\<lambda>(t, q). table_edges (request_queue q)) (table_lock_map lm) lm)"

text \<open>An edge \<open>t \<rightarrow> u\<close> is \<^emph>\<open>justified\<close> by a queue when \<open>t\<close> has a waiting request in
  it, \<open>u\<close> has a granted one, and the modes of the two are incompatible.\<close>

definition waits_on :: "LockRequest list \<Rightarrow> txn_id_t \<Rightarrow> txn_id_t \<Rightarrow> bool" where
  "waits_on rq t u =
     list_ex (\<lambda>w. txn_id w = t \<and> \<not> granted w \<and>
        list_ex (\<lambda>g. txn_id g = u \<and> granted g \<and>
                   \<not> GrantCompatiable (lock_mode w) (lock_mode g)) rq) rq"

subsection \<open>Admission of a shrinking READ\_UNCOMMITTED transaction\<close>

text \<open>
  Claim C7, as stated, makes \<^verbatim>\<open>lock_table\<close> admit the modes X and IX for a shrinking
  READ\_UNCOMMITTED transaction. The source aborts these two modes as well, with
  \<open>LOCK_ON_SHRINKING\<close>: an exclusive table lock requested by such a transaction is not
  admitted.
\<close>

theorem LockTable_shrinking_read_uncommitted_exclusive_aborts:
  "fst (LockTable ((new_transaction 1 READ_UNCOMMITTED)\<lparr>txn_state := SHRINKING\<rparr>)
          EXCLUSIVE 0 empty_lock_manager)
     = Throws (TransactionAbortException LOCK_ON_SHRINKING)
   \<and> \<not> admitted (LockTable ((new_transaction 1 READ_UNCOMMITTED)\<lparr>txn_state := SHRINKING\<rparr>)
          EXCLUSIVE 0 empty_lock_manager)"
  by (simp add: LockTable_def abort_with_def admitted_def new_transaction_def)

text \<open>
  Claim C7, amended: for a transaction in SHRINKING state under READ\_UNCOMMITTED no mode
  is admitted. \<^verbatim>\<open>lock_table\<close> aborts the transaction for every mode, with
  \<open>LOCK_ON_SHRINKING\<close> for X and IX and with \<open>LOCK_SHARED_ON_READ_UNCOMMITTED\<close> for S, IS
  and SIX. \<^verbatim>\<open>lock_row\<close> aborts the transaction for X (with \<open>TABLE_LOCK_NOT_PRESENT\<close>
  when it holds no IX, X or SIX lock on the table, with \<open>LOCK_ON_SHRINKING\<close> otherwise) and
  for S (with \<open>LOCK_SHARED_ON_READ_UNCOMMITTED\<close>); for the intention modes it throws a
  logic error and leaves the transaction as it was. The lock manager is unchanged in
  every case.
\<close>

theorem shrinking_read_uncommitted_admits_nothing:
  "LockTable (txn\<lparr>txn_state := SHRINKING, isolation_level := READ_UNCOMMITTED\<rparr>) m o_id lm =
     (Throws (TransactionAbortException
        (if m = EXCLUSIVE \<or> m = INTENTION_EXCLUSIVE then LOCK_ON_SHRINKING
         else LOCK_SHARED_ON_READ_UNCOMMITTED)),
      txn\<lparr>txn_state := ABORTED, isolation_level := READ_UNCOMMITTED\<rparr>, lm)
   \<and> LockRow (txn\<lparr>txn_state := SHRINKING, isolation_level := READ_UNCOMMITTED\<rparr>) m o_id r_id lm =
     (if m = EXCLUSIVE then
        (Throws (TransactionAbortException
           (if o_id \<in> intention_exclusive_table_lock_set txn \<or>
               o_id \<in> exclusive_table_lock_set txn \<or>
               o_id \<in> shared_intention_exclusive_table_lock_set txn
            then LOCK_ON_SHRINKING else TABLE_LOCK_NOT_PRESENT)),
         txn\<lparr>txn_state := ABORTED, isolation_level := READ_UNCOMMITTED\<rparr>, lm)
      else if m = SHARED then
        (Throws (TransactionAbortException LOCK_SHARED_ON_READ_UNCOMMITTED),
         txn\<lparr>txn_state := ABORTED, isolation_level := READ_UNCOMMITTED\<rparr>, lm)
      else
        (Throws logic_error,
         txn\<lparr>txn_state := SHRINKING, isolation_level := READ_UNCOMMITTED\<rparr>, lm))"
proof (intro conjI)
  show "LockTable (txn\<lparr>txn_state := SHRINKING, isolation_level := READ_UNCOMMITTED\<rparr>) m o_id lm =
     (Throws (TransactionAbortException
        (if m = EXCLUSIVE \<or> m = INTENTION_EXCLUSIVE then LOCK_ON_SHRINKING
         else LOCK_SHARED_ON_READ_UNCOMMITTED)),
      txn\<lparr>txn_state := ABORTED, isolation_level := READ_UNCOMMITTED\<rparr>, lm)"
    by (simp add: LockTable_def abort_with_def)
next
  show "LockRow (txn\<lparr>txn_state := SHRINKING, isolation_level := READ_UNCOMMITTED\<rparr>) m o_id r_id lm =
     (if m = EXCLUSIVE then
        (Throws (TransactionAbortException
           (if o_id \<in> intention_exclusive_table_lock_set txn \<or>
               o_id \<in> exclusive_table_lock_set txn \<or>
               o_id \<in> shared_intention_exclusive_table_lock_set txn
            then LOCK_ON_SHRINKING else TABLE_LOCK_NOT_PRESENT)),
         txn\<lparr>txn_state := ABORTED, isolation_level := READ_UNCOMMITTED\<rparr>, lm)
      else if m = SHARED then
        (Throws (TransactionAbortException LOCK_SHARED_ON_READ_UNCOMMITTED),
         txn\<lparr>txn_state := ABORTED, isolation_level := READ_UNCOMMITTED\<rparr>, lm)
      else
        (Throws logic_error,
         txn\<lparr>txn_state := SHRINKING, isolation_level := READ_UNCOMMITTED\<rparr>, lm))"
    by (cases m) (simp_all add: LockRow_def IsTableFit_def abort_with_def)
qed

theorem shrinking_read_uncommitted_admits_nothing_witness:
  "fst (LockTable ((new_transaction 7 READ_UNCOMMITTED)\<lparr>txn_state := SHRINKING\<rparr>)
          INTENTION_EXCLUSIVE 3 empty_lock_manager)
     = Throws (TransactionAbortException LOCK_ON_SHRINKING)
   \<and> fst (LockRow ((new_transaction 7 READ_UNCOMMITTED)\<lparr>txn_state := SHRINKING\<rparr>)
          SHARED 3 (0, 0) empty_lock_manager)
     = Throws (TransactionAbortException LOCK_SHARED_ON_READ_UNCOMMITTED)
   \<and> fst (LockRow ((new_transaction 7 READ_UNCOMMITTED)\<lparr>txn_state := SHRINKING\<rparr>)
          INTENTION_SHARED 3 (0, 0) empty_lock_manager)
     = Throws logic_error"
  using shrinking_read_uncommitted_admits_nothing
          [of "new_transaction 7 READ_UNCOMMITTED" INTENTION_EXCLUSIVE 3 empty_lock_manager]
        shrinking_read_uncommitted_admits_nothing
          [of "new_transaction 7 READ_UNCOMMITTED" SHARED 3 empty_lock_manager "(0, 0)"]
        shrinking_read_uncommitted_admits_nothing
          [of "new_transaction 7 READ_UNCOMMITTED" INTENTION_SHARED 3 empty_lock_manager "(0, 0)"]
  by (simp add: new_transaction_def)

subsection \<open>Direction of the waits-for edges\<close>

lemma GrantCompatiable_sym: "GrantCompatiable a b = GrantCompatiable b a"
  by (cases a; cases b) (simp_all add: GrantCompatiable_def)

lemma waits_for_AddEdge:
  "waits_for (AddEdge a b lm) t = (if t = a then insert b (waits_for lm a) else waits_for lm t)"
  by (simp add: AddEdge_def)

lemma waits_on_iff:
  "waits_on rq t u \<longleftrightarrow>
     (\<exists>w\<in>set rq. \<exists>g\<in>set rq. txn_id w = t \<and> \<not> granted w \<and> txn_id g = u \<and> granted g \<and>
        \<not> GrantCompatiable (lock_mode w) (lock_mode g))"
  by (auto simp: waits_on_def list_ex_iff)

lemma waits_on_mono: "set rq \<subseteq> set rq' \<Longrightarrow> waits_on rq t u \<Longrightarrow> waits_on rq' t u"
  unfolding waits_on_iff by blast

lemma table_step:
  assumes "u \<in> waits_for (if ((granted f \<and> \<not> granted s) \<or> (\<not> granted f \<and> granted s)) \<and>
           \<not> GrantCompatiable (lock_mode f) (lock_mode s)
        then (if granted f then AddEdge (txn_id s) (txn_id f) lm
              else AddEdge (txn_id f) (txn_id s) lm)
        else lm) t"
  shows "u \<in> waits_for lm t \<or> waits_on (f # s # rest) t u"
proof (cases "u \<in> waits_for lm t")
  case True
  then show ?thesis ..
next
  case False
  have sym: "GrantCompatiable (lock_mode s) (lock_mode f) = GrantCompatiable (lock_mode f) (lock_mode s)"
    by (rule GrantCompatiable_sym)
  show ?thesis
  proof (cases "granted f")
    case gf: True
    with assms False have "t = txn_id s \<and> u = txn_id f \<and> \<not> granted s \<and>
        \<not> GrantCompatiable (lock_mode s) (lock_mode f)"
      by (simp add: waits_for_AddEdge sym split: if_splits)
    with gf have "\<exists>w\<in>set (f # s # rest). \<exists>g\<in>set (f # s # rest). txn_id w = t \<and> \<not> granted w \<and>
        txn_id g = u \<and> granted g \<and> \<not> GrantCompatiable (lock_mode w) (lock_mode g)"
      by (intro bexI [of _ s] bexI [of _ f]) simp_all
    then show ?thesis unfolding waits_on_iff by (rule disjI2)
  next
    case gf: False
    with assms False have "t = txn_id f \<and> u = txn_id s \<and> granted s \<and>
        \<not> GrantCompatiable (lock_mode f) (lock_mode s)"
      by (simp add: waits_for_AddEdge split: if_splits)
    with gf have "\<exists>w\<in>set (f # s # rest). \<exists>g\<in>set (f # s # rest). txn_id w = t \<and> \<not> granted w \<and>
        txn_id g = u \<and> granted g \<and> \<not> GrantCompatiable (lock_mode w) (lock_mode g)"
      by (intro bexI [of _ f] bexI [of _ s]) simp_all
    then show ?thesis unfolding waits_on_iff by (rule disjI2)
  qed
qed

lemma table_edges_second_sound:
  "u \<in> waits_for (table_edges_second f rest lm) t \<Longrightarrow>
     u \<in> waits_for lm t \<or> waits_on (f # rest) t u"
proof (induction rest arbitrary: lm)
  case Nil
  then show ?case by simp
next
  case (Cons s rest)
  let ?lm = "if ((granted f \<and> \<not> granted s) \<or> (\<not> granted f \<and> granted s)) \<and>
           \<not> GrantCompatiable (lock_mode f) (lock_mode s)
        then (if granted f then AddEdge (txn_id s) (txn_id f) lm
              else AddEdge (txn_id f) (txn_id s) lm)
        else lm"
  from Cons.prems have "u \<in> waits_for (table_edges_second f rest ?lm) t"
    by (simp only: table_edges_second.simps)
  from Cons.IH [OF this] have "u \<in> waits_for ?lm t \<or> waits_on (f # rest) t u" .
  then show ?case
  proof
    assume "waits_on (f # rest) t u"
    then have "waits_on (f # s # rest) t u" by (rule waits_on_mono [rotated]) auto
    then show ?thesis ..
  next
    assume "u \<in> waits_for ?lm t"
    then show ?thesis by (rule table_step)
  qed
qed

lemma table_edges_sound:
  "u \<in> waits_for (table_edges rq lm) t \<Longrightarrow> u \<in> waits_for lm t \<or> waits_on rq t u"
proof (induction rq arbitrary: lm)
  case Nil
  then show ?case by simp
next
  case (Cons f rest)
  from Cons.prems have "u \<in> waits_for (table_edges rest (table_edges_second f rest lm)) t" by simp
  from Cons.IH [OF this]
  have "u \<in> waits_for (table_edges_second f rest lm) t \<or> waits_on rest t u" .
  then show ?case
  proof
    assume "u \<in> waits_for (table_edges_second f rest lm) t"
    from table_edges_second_sound [OF this] show ?thesis .
  next
    assume "waits_on rest t u"
    then have "waits_on (f # rest) t u" by (rule waits_on_mono [rotated]) auto
    then show ?thesis ..
  qed
qed

lemma row_step:
  assumes "u \<in> waits_for (if ((granted f \<and> \<not> granted s) \<or> (\<not> granted f \<and> granted s)) \<and>
           \<not> GrantCompatiable (lock_mode f) (lock_mode s)
        then (if granted f then AddEdge (txn_id f) (txn_id s) lm
              else AddEdge (txn_id s) (txn_id f) lm)
        else lm) t"
  shows "u \<in> waits_for lm t \<or> waits_on (f # s # rest) u t"
proof (cases "u \<in> waits_for lm t")
  case True
  then show ?thesis ..
next
  case False
  have sym: "GrantCompatiable (lock_mode s) (lock_mode f) = GrantCompatiable (lock_mode f) (lock_mode s)"
    by (rule GrantCompatiable_sym)
  show ?thesis
  proof (cases "granted f")
    case gf: True
    with assms False have "t = txn_id f \<and> u = txn_id s \<and> \<not> granted s \<and>
        \<not> GrantCompatiable (lock_mode s) (lock_mode f)"
      by (simp add: waits_for_AddEdge sym split: if_splits)
    with gf have "\<exists>w\<in>set (f # s # rest). \<exists>g\<in>set (f # s # rest). txn_id w = u \<and> \<not> granted w \<and>
        txn_id g = t \<and> granted g \<and> \<not> GrantCompatiable (lock_mode w) (lock_mode g)"
      by (intro bexI [of _ s] bexI [of _ f]) simp_all
    then show ?thesis unfolding waits_on_iff by (rule disjI2)
  next
    case gf: False
    with assms False have "t = txn_id s \<and> u = txn_id f \<and> granted s \<and>
        \<not> GrantCompatiable (lock_mode f) (lock_mode s)"
      by (simp add: waits_for_AddEdge split: if_splits)
    with gf have "\<exists>w\<in>set (f # s # rest). \<exists>g\<in>set (f # s # rest). txn_id w = u \<and> \<not> granted w \<and>
        txn_id g = t \<and> granted g \<and> \<not> GrantCompatiable (lock_mode w) (lock_mode g)"
      by (intro bexI [of _ f] bexI [of _ s]) simp_all
    then show ?thesis unfolding waits_on_iff by (rule disjI2)
  qed
qed

lemma row_edges_second_reversed:
  "u \<in> waits_for (row_edges_second f rest lm) t \<Longrightarrow>
     u \<in> waits_for lm t \<or> waits_on (f # rest) u t"
proof (induction rest arbitrary: lm)
  case Nil
  then show ?case by simp
next
  case (Cons s rest)
  let ?lm = "if ((granted f \<and> \<not> granted s) \<or> (\<not> granted f \<and> granted s)) \<and>
           \<not> GrantCompatiable (lock_mode f) (lock_mode s)
        then (if granted f then AddEdge (txn_id f) (txn_id s) lm
              else AddEdge (txn_id s) (txn_id f) lm)
        else lm"
  from Cons.prems have "u \<in> waits_for (row_edges_second f rest ?lm) t"
    by (simp only: row_edges_second.simps)
  from Cons.IH [OF this] have "u \<in> waits_for ?lm t \<or> waits_on (f # rest) u t" .
  then show ?case
  proof
    assume "waits_on (f # rest) u t"
    then have "waits_on (f # s # rest) u t" by (rule waits_on_mono [rotated]) auto
    then show ?thesis ..
  next
    assume "u \<in> waits_for ?lm t"
    then show ?thesis by (rule row_step)
  qed
qed

lemma row_edges_reversed:
  "u \<in> waits_for (row_edges rq lm) t \<Longrightarrow> u \<in> waits_for lm t \<or> waits_on rq u t"
proof (induction rq arbitrary: lm)
  case Nil
  then show ?case by simp
next
  case (Cons f rest)
  from Cons.prems have "u \<in> waits_for (row_edges rest (row_edges_second f rest lm)) t" by simp
  from Cons.IH [OF this]
  have "u \<in> waits_for (row_edges_second f rest lm) t \<or> waits_on rest u t" .
  then show ?case
  proof
    assume "u \<in> waits_for (row_edges_second f rest lm) t"
    from row_edges_second_reversed [OF this] show ?thesis .
  next
    assume "waits_on rest u t"
    then have "waits_on (f # rest) u t" by (rule waits_on_mono [rotated]) auto
    then show ?thesis ..
  qed
qed

text \<open>
  Claim C9 on its failing input: one row queue holding a granted exclusive request of
  transaction 1 and, behind it, a waiting exclusive request of transaction 2. Transaction
  2 waits on transaction 1, yet the graph the detector builds has the edge \<open>1 \<rightarrow> 2\<close>
  and no edge out of 2. The same queue as a table queue gives the edge \<open>2 \<rightarrow> 1\<close>.
\<close>

theorem row_queue_edge_points_from_granted_to_waiting:
  "waits_for (build_waits_for (empty_lock_manager\<lparr>row_lock_map :=
      [((0, 0), \<lparr>request_queue =
          [\<lparr>txn_id = 1, lock_mode = EXCLUSIVE, oid = 0, rid = Some (0, 0), granted = True\<rparr>,
           \<lparr>txn_id = 2, lock_mode = EXCLUSIVE, oid = 0, rid = Some (0, 0), granted = False\<rparr>],
          upgrading = INVALID_TXN_ID\<rparr>)]\<rparr>)) 1 = {2}
   \<and> waits_for (build_waits_for (empty_lock_manager\<lparr>row_lock_map :=
      [((0, 0), \<lparr>request_queue =
          [\<lparr>txn_id = 1, lock_mode = EXCLUSIVE, oid = 0, rid = Some (0, 0), granted = True\<rparr>,
           \<lparr>txn_id = 2, lock_mode = EXCLUSIVE, oid = 0, rid = Some (0, 0), granted = False\<rparr>],
          upgrading = INVALID_TXN_ID\<rparr>)]\<rparr>)) 2 = {}
   \<and> waits_for (build_waits_for (empty_lock_manager\<lparr>table_lock_map :=
      [(0, \<lparr>request_queue =
          [\<lparr>txn_id = 1, lock_mode = EXCLUSIVE, oid = 0, rid = None, granted = True\<rparr>,
           \<lparr>txn_id = 2, lock_mode = EXCLUSIVE, oid = 0, rid = None, granted = False\<rparr>],
          upgrading = INVALID_TXN_ID\<rparr>)]\<rparr>)) 2 = {1}"
  by (simp add: build_waits_for_def empty_lock_manager_def AddEdge_def GrantCompatiable_def)

subsection \<open>GrantLock keeps the granted requests compatible\<close>

text \<open>The modes of the granted requests of a queue, as a multiset: the order of the
  queue and of the vector \<^verbatim>\<open>has_granted_lock_request\<close> differ.\<close>

definition mset_compatible :: "LockMode multiset \<Rightarrow> bool" where
  "mset_compatible M = (\<forall>a b. a \<in># M \<longrightarrow> b \<in># M - {#a#} \<longrightarrow> GrantCompatiable a b)"

definition granted_modes :: "LockRequest list \<Rightarrow> LockMode multiset" where
  "granted_modes rq = mset (map lock_mode (filter granted rq))"

lemma mset_compatible_add:
  "mset_compatible (add_mset x M) \<longleftrightarrow> mset_compatible M \<and> (\<forall>m\<in>#M. GrantCompatiable x m)"
proof
  assume c: "mset_compatible (add_mset x M)"
  have "mset_compatible M"
    unfolding mset_compatible_def
  proof (intro allI impI)
    fix a b assume "a \<in># M" "b \<in># M - {#a#}"
    then have "a \<in># add_mset x M" "b \<in># add_mset x M - {#a#}"
      by (auto simp: add_mset_diff_bothsides)
    with c show "GrantCompatiable a b" unfolding mset_compatible_def by blast
  qed
  moreover have "\<forall>m\<in>#M. GrantCompatiable x m"
  proof
    fix m assume "m \<in># M"
    then have "x \<in># add_mset x M" "m \<in># add_mset x M - {#x#}" by auto
    with c show "GrantCompatiable x m" unfolding mset_compatible_def by blast
  qed
  ultimately show "mset_compatible M \<and> (\<forall>m\<in>#M. GrantCompatiable x m)" ..
next
  assume h: "mset_compatible M \<and> (\<forall>m\<in>#M. GrantCompatiable x m)"
  show "mset_compatible (add_mset x M)"
    unfolding mset_compatible_def
  proof (intro allI impI)
    fix a b assume a: "a \<in># add_mset x M" and b: "b \<in># add_mset x M - {#a#}"
    show "GrantCompatiable a b"
    proof (cases "a = x")
      case True
      with b have "b \<in># M" by simp
      with h True show ?thesis by blast
    next
      case False
      with a have aM: "a \<in># M" by simp
      then have "add_mset x M - {#a#} = add_mset x (M - {#a#})" by simp
      with b have "b = x \<or> b \<in># M - {#a#}" by auto
      then show ?thesis
      proof
        assume "b = x"
        with h aM show ?thesis using GrantCompatiable_sym [of a x] by blast
      next
        assume "b \<in># M - {#a#}"
        with h aM show ?thesis unfolding mset_compatible_def by blast
      qed
    qed
  qed
qed

lemma mset_compatible_empty: "mset_compatible {#}"
  by (simp add: mset_compatible_def)

lemma pairwise_compatible_mset: "pairwise_compatible ms \<longleftrightarrow> mset_compatible (mset ms)"
  by (induction ms) (auto simp: mset_compatible_empty mset_compatible_add list_all_iff)

lemma granted_compatible_iff: "granted_compatible rq \<longleftrightarrow> mset_compatible (granted_modes rq)"
  by (simp add: granted_compatible_def granted_modes_def pairwise_compatible_mset)

lemma mset_compatible_mono: "N \<subseteq># M \<Longrightarrow> mset_compatible M \<Longrightarrow> mset_compatible N"
proof -
  assume sub: "N \<subseteq># M" and c: "mset_compatible M"
  have d: "N - {#a#} \<subseteq># M - {#a#}" for a
    using sub by (auto simp: subseteq_mset_def intro: diff_le_mono)
  show ?thesis
    unfolding mset_compatible_def
  proof (intro allI impI)
    fix a b assume "a \<in># N" "b \<in># N - {#a#}"
    with sub d [of a] have "a \<in># M" "b \<in># M - {#a#}"
      by (auto dest: mset_subset_eqD)
    with c show "GrantCompatiable a b" unfolding mset_compatible_def by blast
  qed
qed


lemma granted_modes_simps:
  "granted_modes [] = {#}"
  "granted_modes (r # rs) =
     (if granted r then add_mset (lock_mode r) (granted_modes rs) else granted_modes rs)"
  by (simp_all add: granted_modes_def)

lemma granted_modes_append:
  "granted_modes (xs @ ys) = granted_modes xs + granted_modes ys"
  by (simp add: granted_modes_def)

lemma granted_modes_erase_txn: "granted_modes (erase_txn t rq) \<subseteq># granted_modes rq"
proof (induction rq)
  case Nil
  show ?case by simp
next
  case (Cons r rs)
  have "granted_modes rs \<subseteq># granted_modes (r # rs)"
    by (simp add: granted_modes_simps)
  with Cons show ?case
    by (auto simp: granted_modes_simps intro: subset_mset.order_trans)
qed

lemma granted_modes_erase_granted: "granted_modes (erase_granted t rq) \<subseteq># granted_modes rq"
proof (induction rq)
  case Nil
  show ?case by simp
next
  case (Cons r rs)
  have "granted_modes rs \<subseteq># granted_modes (r # rs)"
    by (simp add: granted_modes_simps)
  with Cons show ?case
    by (auto simp: granted_modes_simps intro: subset_mset.order_trans)
qed

lemma grant_scan_compatible:
  assumes "mset (map lock_mode hg) = P + granted_modes rs"
    and "mset_compatible (mset (map lock_mode hg))"
  shows "mset_compatible (P + granted_modes (snd (grant_scan t hg flag rs)))"
  using assms
proof (induction rs arbitrary: hg flag P)
  case Nil
  then show ?case by (simp add: granted_modes_simps)
next
  case (Cons r rs)
  show ?case
  proof (cases "granted r")
    case True
    with Cons.prems(1)
    have eq: "mset (map lock_mode hg) = add_mset (lock_mode r) P + granted_modes rs"
      by (simp add: granted_modes_simps)
    from Cons.IH [OF eq Cons.prems(2), of "flag \<or> txn_id r = t"] True
    show ?thesis
      by (simp add: granted_modes_simps case_prod_beta Let_def)
  next
    case False
    note ungranted = this
    show ?thesis
    proof (cases "list_all (\<lambda>g. GrantCompatiable (lock_mode g) (lock_mode r)) hg")
      case True
      let ?r = "r\<lparr>granted := True\<rparr>"
      from Cons.prems(1) ungranted
      have eq: "mset (map lock_mode (hg @ [?r])) = add_mset (lock_mode r) P + granted_modes rs"
        by (simp add: granted_modes_simps)
      from True have "\<forall>m\<in>#mset (map lock_mode hg). GrantCompatiable (lock_mode r) m"
        by (auto simp: list_all_iff GrantCompatiable_sym [of "lock_mode r"])
      with Cons.prems(2) have "mset_compatible (mset (map lock_mode (hg @ [?r])))"
        by (simp add: mset_compatible_add)
      from Cons.IH [OF eq this, of "flag \<or> txn_id r = t"] True ungranted
      show ?thesis
        by (simp add: granted_modes_simps case_prod_beta Let_def)
    next
      case False
      from Cons.prems(1) ungranted
      have eq: "mset (map lock_mode hg) = P + granted_modes rs"
        by (simp add: granted_modes_simps)
      from Cons.IH [OF eq Cons.prems(2), of flag] False ungranted
      show ?thesis
        by (simp add: granted_modes_simps case_prod_beta Let_def)
    qed
  qed
qed

lemma granted_modes_grant_first:
  "find (\<lambda>r. txn_id r = t) rq = Some r \<Longrightarrow>
   granted_modes (grant_first t rq) =
     (if granted r then granted_modes rq else add_mset (lock_mode r) (granted_modes rq))"
  by (induction rq) (auto simp: granted_modes_simps)

text \<open>\<^verbatim>\<open>GrantLock\<close> keeps the granted requests compatible under its caller's
  contract: the request of the transaction that stands in the queue carries the mode the
  call passes.\<close>

lemma GrantLock_compatible:
  assumes inv: "granted_compatible (request_queue q)"
    and mode: "\<And>r. find (\<lambda>r. txn_id r = t) (request_queue q) = Some r \<Longrightarrow> lock_mode r = m"
  shows "granted_compatible (request_queue (snd (GrantLock t m q)))"
proof -
  let ?rq = "request_queue q"
  let ?hg = "filter granted ?rq"
  have c: "mset_compatible (granted_modes ?rq)"
    using inv by (simp add: granted_compatible_iff)
  consider
      (refuse) "\<not> list_all (\<lambda>g. GrantCompatiable (lock_mode g) m) ?hg"
    | (upgrade) "list_all (\<lambda>g. GrantCompatiable (lock_mode g) m) ?hg"
        "upgrading q = t \<and> find (\<lambda>r. txn_id r = t) ?rq \<noteq> None"
    | (scan) "list_all (\<lambda>g. GrantCompatiable (lock_mode g) m) ?hg"
        "\<not> (upgrading q = t \<and> find (\<lambda>r. txn_id r = t) ?rq \<noteq> None)"
    by blast
  then show ?thesis
  proof cases
    case refuse
    then show ?thesis using inv by (simp add: GrantLock_def)
  next
    case upgrade
    then obtain r where r: "find (\<lambda>r. txn_id r = t) ?rq = Some r" by auto
    then have m: "lock_mode r = m" by (rule mode)
    from upgrade(1) have "\<forall>x\<in>#granted_modes ?rq. GrantCompatiable m x"
      by (auto simp: list_all_iff granted_modes_def GrantCompatiable_sym [of m])
    with c have "mset_compatible (add_mset m (granted_modes ?rq))"
      by (simp add: mset_compatible_add)
    with c m have "mset_compatible (granted_modes (grant_first t ?rq))"
      by (simp add: granted_modes_grant_first [OF r])
    with upgrade show ?thesis
      by (simp add: GrantLock_def granted_compatible_iff)
  next
    case scan
    have "mset (map lock_mode ?hg) = {#} + granted_modes ?rq"
      by (simp add: granted_modes_def)
    moreover have "mset_compatible (mset (map lock_mode ?hg))"
      using c by (simp add: granted_modes_def)
    ultimately have "mset_compatible ({#} + granted_modes (snd (grant_scan t ?hg False ?rq)))"
      by (rule grant_scan_compatible)
    with scan show ?thesis
      by (auto simp: GrantLock_def granted_compatible_iff case_prod_beta)
  qed
qed

subsection \<open>The invariant of a queue\<close>

text \<open>
  What every reachable queue satisfies: its granted requests are compatible, a
  transaction has at most one request in it, and the request of a call in flight carries
  the mode of the call (the contract \<^verbatim>\<open>GrantLock\<close> relies on).
\<close>

definition queue_inv :: "LockRequestQueue \<Rightarrow> (txn_id_t \<Rightarrow> LockMode option) \<Rightarrow> bool" where
  "queue_inv q w \<longleftrightarrow>
     granted_compatible (request_queue q) \<and>
     distinct (map txn_id (request_queue q)) \<and>
     (\<forall>t m. w t = Some m \<longrightarrow> (t, m) \<in> set (map (\<lambda>r. (txn_id r, lock_mode r)) (request_queue q)))"

lemma find_txn_mode:
  assumes "distinct (map txn_id rq)"
    and "(t, m) \<in> set (map (\<lambda>r. (txn_id r, lock_mode r)) rq)"
    and "find (\<lambda>r. txn_id r = t) rq = Some r"
  shows "lock_mode r = m"
  using assms
proof (induction rq)
  case Nil
  then show ?case by simp
next
  case (Cons x xs)
  show ?case
  proof (cases "txn_id x = t")
    case True
    with Cons.prems show ?thesis by (auto simp: image_iff)
  next
    case False
    with Cons show ?thesis by auto
  qed
qed

lemma sig_grant_first:
  "map (\<lambda>r. (txn_id r, lock_mode r)) (grant_first t rq) = map (\<lambda>r. (txn_id r, lock_mode r)) rq"
  by (induction rq) auto

lemma sig_grant_scan:
  "map (\<lambda>r. (txn_id r, lock_mode r)) (snd (grant_scan t hg flag rq)) =
   map (\<lambda>r. (txn_id r, lock_mode r)) rq"
  by (induction rq arbitrary: hg flag) (simp_all add: case_prod_beta Let_def)

lemma sig_GrantLock:
  "map (\<lambda>r. (txn_id r, lock_mode r)) (request_queue (snd (GrantLock t m q))) =
   map (\<lambda>r. (txn_id r, lock_mode r)) (request_queue q)"
  by (simp add: GrantLock_def Let_def case_prod_beta sig_grant_first sig_grant_scan)

lemma txn_ids_of_sig:
  "map txn_id rq = map fst (map (\<lambda>r. (txn_id r, lock_mode r)) rq)"
  by simp

lemma txn_ids_GrantLock:
  "map txn_id (request_queue (snd (GrantLock t m q))) = map txn_id (request_queue q)"
  by (simp only: txn_ids_of_sig sig_GrantLock)

lemma set_erase_txn: "set (erase_txn t rq) \<subseteq> set rq"
  by (induction rq) auto

lemma erase_txn_keeps: "r \<in> set rq \<Longrightarrow> txn_id r \<noteq> t \<Longrightarrow> r \<in> set (erase_txn t rq)"
  by (induction rq) auto

lemma distinct_erase_txn:
  "distinct (map txn_id rq) \<Longrightarrow>
     distinct (map txn_id (erase_txn t rq)) \<and> t \<notin> txn_id ` set (erase_txn t rq)"
proof (induction rq)
  case Nil
  then show ?case by simp
next
  case (Cons x xs)
  then show ?case using set_erase_txn [of t xs] by (auto simp: image_iff)
qed

lemma set_erase_granted: "set (erase_granted t rq) \<subseteq> set rq"
  by (induction rq) auto

lemma erase_granted_keeps:
  "r \<in> set rq \<Longrightarrow> txn_id r \<noteq> t \<Longrightarrow> r \<in> set (erase_granted t rq)"
  by (induction rq) auto

lemma distinct_erase_granted:
  "distinct (map txn_id rq) \<Longrightarrow> distinct (map txn_id (erase_granted t rq))"
proof (induction rq)
  case Nil
  then show ?case by simp
next
  case (Cons x xs)
  then show ?case using set_erase_granted [of t xs] by (auto simp: image_iff)
qed

lemma queue_inv_GrantLock:
  assumes "queue_inv q w" "w t = Some m"
    and that: "\<And>u. w' u \<noteq> None \<Longrightarrow> w' u = w u"
  shows "queue_inv (snd (GrantLock t m q)) w'"
proof -
  from assms have c: "granted_compatible (request_queue q)"
    and d: "distinct (map txn_id (request_queue q))"
    and p: "(t, m) \<in> set (map (\<lambda>r. (txn_id r, lock_mode r)) (request_queue q))"
    by (auto simp: queue_inv_def)
  have "granted_compatible (request_queue (snd (GrantLock t m q)))"
    using c find_txn_mode [OF d p] by (rule GrantLock_compatible)
  moreover have "distinct (map txn_id (request_queue (snd (GrantLock t m q))))"
    using d by (simp only: txn_ids_GrantLock)
  moreover have "\<forall>u n. w' u = Some n \<longrightarrow>
      (u, n) \<in> set (map (\<lambda>r. (txn_id r, lock_mode r)) (request_queue (snd (GrantLock t m q))))"
  proof (intro allI impI)
    fix u n assume "w' u = Some n"
    with that [of u] have "w u = Some n" by simp
    with assms(1) have "(u, n) \<in> set (map (\<lambda>r. (txn_id r, lock_mode r)) (request_queue q))"
      by (simp add: queue_inv_def)
    then show "(u, n) \<in> set (map (\<lambda>r. (txn_id r, lock_mode r))
        (request_queue (snd (GrantLock t m q))))"
      by (simp only: sig_GrantLock)
  qed
  ultimately show ?thesis unfolding queue_inv_def by blast
qed


lemma queue_inv_init: "queue_inv empty_queue (\<lambda>t. None)"
  by (simp add: queue_inv_def empty_queue_def granted_compatible_def)

lemma granted_compatible_sub:
  "granted_modes rq' \<subseteq># granted_modes rq \<Longrightarrow> granted_compatible rq \<Longrightarrow> granted_compatible rq'"
  unfolding granted_compatible_iff by (rule mset_compatible_mono)

lemma queue_inv_append:
  assumes inv: "queue_inv q w" and fresh: "t \<notin> txn_id ` set (request_queue q)"
    and new: "txn_id r = t" "lock_mode r = m" "\<not> granted r"
  shows "queue_inv (q\<lparr>request_queue := request_queue q @ [r]\<rparr>) (w(t \<mapsto> m))"
proof -
  from inv new(3) have "granted_compatible (request_queue q @ [r])"
    by (simp add: queue_inv_def granted_compatible_iff granted_modes_append granted_modes_simps)
  moreover from inv fresh new(1) have "distinct (map txn_id (request_queue q @ [r]))"
    by (simp add: queue_inv_def)
  moreover from inv new(1,2)
  have "\<forall>u n. (w(t \<mapsto> m)) u = Some n \<longrightarrow>
      (u, n) \<in> set (map (\<lambda>r. (txn_id r, lock_mode r)) (request_queue q @ [r]))"
    by (auto simp: queue_inv_def)
  ultimately show ?thesis by (simp add: queue_inv_def)
qed

lemma queue_inv_upgrade:
  assumes inv: "queue_inv q w" and idle: "w t = None"
    and new: "txn_id r = t" "lock_mode r = m" "\<not> granted r"
  shows "queue_inv \<lparr>request_queue = erase_txn t (request_queue q) @ [r], upgrading = u\<rparr>
           (w(t \<mapsto> m))"
proof -
  let ?rq = "request_queue q"
  from inv have c: "granted_compatible ?rq" and d: "distinct (map txn_id ?rq)"
    by (simp_all add: queue_inv_def)
  from c have "granted_compatible (erase_txn t ?rq)"
    by (rule granted_compatible_sub [OF granted_modes_erase_txn])
  with new(3) have "granted_compatible (erase_txn t ?rq @ [r])"
    by (simp add: granted_compatible_iff granted_modes_append granted_modes_simps)
  moreover from distinct_erase_txn [OF d, of t] new(1)
  have "distinct (map txn_id (erase_txn t ?rq @ [r]))" by simp
  moreover
  have "\<forall>v n. (w(t \<mapsto> m)) v = Some n \<longrightarrow>
      (v, n) \<in> set (map (\<lambda>r. (txn_id r, lock_mode r)) (erase_txn t ?rq @ [r]))"
  proof (intro allI impI)
    fix v n assume a: "(w(t \<mapsto> m)) v = Some n"
    show "(v, n) \<in> set (map (\<lambda>r. (txn_id r, lock_mode r)) (erase_txn t ?rq @ [r]))"
    proof (cases "v = t")
      case True
      with a new show ?thesis by simp
    next
      case False
      with a have "w v = Some n" by simp
      with inv obtain x where "x \<in> set ?rq" "txn_id x = v" "lock_mode x = n"
        by (auto simp: queue_inv_def)
      with False have "x \<in> set (erase_txn t ?rq)" by (simp add: erase_txn_keeps)
      with \<open>txn_id x = v\<close> \<open>lock_mode x = n\<close> show ?thesis by (auto simp: image_iff)
    qed
  qed
  ultimately show ?thesis by (simp add: queue_inv_def)
qed

lemma queue_inv_same:
  assumes inv: "queue_inv q w" and r: "r \<in> set (request_queue q)" "txn_id r = t" "lock_mode r = m"
  shows "queue_inv q (w(t \<mapsto> m))"
proof -
  have "\<forall>v n. (w(t \<mapsto> m)) v = Some n \<longrightarrow>
      (v, n) \<in> set (map (\<lambda>r. (txn_id r, lock_mode r)) (request_queue q))"
  proof (intro allI impI)
    fix v n assume a: "(w(t \<mapsto> m)) v = Some n"
    show "(v, n) \<in> set (map (\<lambda>r. (txn_id r, lock_mode r)) (request_queue q))"
    proof (cases "v = t")
      case True
      with a have "n = m" by simp
      with True r have "(v, n) = (\<lambda>r. (txn_id r, lock_mode r)) r" by simp
      with r(1) show ?thesis unfolding set_map by (simp add: image_iff) blast
    next
      case False
      with a inv show ?thesis by (simp add: queue_inv_def)
    qed
  qed
  with inv show ?thesis by (simp add: queue_inv_def)
qed

lemma find_None_fresh: "find (\<lambda>r. txn_id r = t) rq = None \<Longrightarrow> t \<notin> txn_id ` set rq"
  by (auto simp: find_None_iff)

lemma queue_inv_UpdateLock_table:
  assumes "queue_inv q w" "w (transaction_id txn) = None"
    and "UpdateLock_table txn m o_id q = (Inr True, txn1, q1)"
  shows "queue_inv q1 (w(transaction_id txn \<mapsto> m))"
proof (cases "find (\<lambda>r. txn_id r = transaction_id txn) (request_queue q)")
  case None
  with assms(3)
  have q1: "q1 = q\<lparr>request_queue :=
      request_queue q @ [new_table_request (transaction_id txn) m o_id]\<rparr>"
    by (auto simp: UpdateLock_table_def)
  show ?thesis unfolding q1
    by (rule queue_inv_append [OF assms(1) find_None_fresh [OF None]])
       (simp_all add: new_table_request_def)
next
  case (Some r)
  show ?thesis
  proof (cases "lock_mode r = m")
    case True
    with Some assms(3) have q1: "q1 = q" by (simp add: UpdateLock_table_def)
    from Some have "r \<in> set (request_queue q)" "txn_id r = transaction_id txn"
      by (auto simp: find_Some_iff in_set_conv_nth)
    with True assms(1) show ?thesis unfolding q1
      by (blast intro: queue_inv_same)
  next
    case False
    with Some assms(3)
    have q1: "q1 = \<lparr>request_queue = erase_txn (transaction_id txn) (request_queue q)
                        @ [new_table_request (transaction_id txn) m o_id],
                     upgrading = transaction_id txn\<rparr>"
      by (simp add: UpdateLock_table_def split: if_splits)
    show ?thesis unfolding q1
      by (rule queue_inv_upgrade [OF assms(1,2)]) (simp_all add: new_table_request_def)
  qed
qed

lemma queue_inv_UpdateLock_row:
  assumes "queue_inv q w" "w (transaction_id txn) = None"
    and "UpdateLock_row txn m o_id r_id q = (Inr True, txn1, q1)"
  shows "queue_inv q1 (w(transaction_id txn \<mapsto> m))"
proof (cases "find (\<lambda>r. txn_id r = transaction_id txn) (request_queue q)")
  case None
  with assms(3)
  have q1: "q1 = q\<lparr>request_queue :=
      request_queue q @ [new_row_request (transaction_id txn) m o_id r_id]\<rparr>"
    by (auto simp: UpdateLock_row_def)
  show ?thesis unfolding q1
    by (rule queue_inv_append [OF assms(1) find_None_fresh [OF None]])
       (simp_all add: new_row_request_def)
next
  case (Some r)
  show ?thesis
  proof (cases "lock_mode r = m")
    case True
    with Some assms(3) have q1: "q1 = q" by (simp add: UpdateLock_row_def)
    from Some have "r \<in> set (request_queue q)" "txn_id r = transaction_id txn"
      by (auto simp: find_Some_iff in_set_conv_nth)
    with True assms(1) show ?thesis unfolding q1
      by (blast intro: queue_inv_same)
  next
    case False
    with Some assms(3)
    have q1: "q1 = \<lparr>request_queue = erase_txn (transaction_id txn) (request_queue q)
                        @ [new_row_request (transaction_id txn) m o_id r_id],
                     upgrading = transaction_id txn\<rparr>"
      by (simp add: UpdateLock_row_def split: if_splits)
    show ?thesis unfolding q1
      by (rule queue_inv_upgrade [OF assms(1,2)]) (simp_all add: new_row_request_def)
  qed
qed


lemma queue_inv_erase_txn:
  assumes inv: "queue_inv q w"
  shows "queue_inv (q\<lparr>request_queue := erase_txn t (request_queue q), upgrading := u\<rparr>)
           (w(t := None))"
proof -
  let ?rq = "request_queue q"
  from inv have c: "granted_compatible ?rq" and d: "distinct (map txn_id ?rq)"
    by (simp_all add: queue_inv_def)
  from c have "granted_compatible (erase_txn t ?rq)"
    by (rule granted_compatible_sub [OF granted_modes_erase_txn])
  moreover from distinct_erase_txn [OF d, of t]
  have "distinct (map txn_id (erase_txn t ?rq))" by simp
  moreover
  have "\<forall>v n. (w(t := None)) v = Some n \<longrightarrow>
      (v, n) \<in> set (map (\<lambda>r. (txn_id r, lock_mode r)) (erase_txn t ?rq))"
  proof (intro allI impI)
    fix v n assume a: "(w(t := None)) v = Some n"
    then have "v \<noteq> t" "w v = Some n" by (auto split: if_splits)
    with inv obtain x where "x \<in> set ?rq" "txn_id x = v" "lock_mode x = n"
      by (auto simp: queue_inv_def)
    with \<open>v \<noteq> t\<close> have "x \<in> set (erase_txn t ?rq)" by (simp add: erase_txn_keeps)
    with \<open>txn_id x = v\<close> \<open>lock_mode x = n\<close>
    show "(v, n) \<in> set (map (\<lambda>r. (txn_id r, lock_mode r)) (erase_txn t ?rq))"
      by (auto simp: image_iff)
  qed
  ultimately show ?thesis by (simp add: queue_inv_def)
qed

lemma queue_inv_erase_granted:
  assumes inv: "queue_inv q w" and idle: "w t = None"
  shows "queue_inv (q\<lparr>request_queue := erase_granted t (request_queue q)\<rparr>) w"
proof -
  let ?rq = "request_queue q"
  from inv have c: "granted_compatible ?rq" and d: "distinct (map txn_id ?rq)"
    by (simp_all add: queue_inv_def)
  from c have "granted_compatible (erase_granted t ?rq)"
    by (rule granted_compatible_sub [OF granted_modes_erase_granted])
  moreover from d have "distinct (map txn_id (erase_granted t ?rq))"
    by (rule distinct_erase_granted)
  moreover
  have "\<forall>v n. w v = Some n \<longrightarrow>
      (v, n) \<in> set (map (\<lambda>r. (txn_id r, lock_mode r)) (erase_granted t ?rq))"
  proof (intro allI impI)
    fix v n assume a: "w v = Some n"
    with idle have "v \<noteq> t" by auto
    from a inv obtain x where "x \<in> set ?rq" "txn_id x = v" "lock_mode x = n"
      by (auto simp: queue_inv_def)
    with \<open>v \<noteq> t\<close> have "x \<in> set (erase_granted t ?rq)" by (simp add: erase_granted_keeps)
    with \<open>txn_id x = v\<close> \<open>lock_mode x = n\<close>
    show "(v, n) \<in> set (map (\<lambda>r. (txn_id r, lock_mode r)) (erase_granted t ?rq))"
      by (auto simp: image_iff)
  qed
  ultimately show ?thesis by (simp add: queue_inv_def)
qed

lemma queue_inv_upgrading:
  "queue_inv q w \<Longrightarrow> queue_inv (q\<lparr>upgrading := u\<rparr>) w"
  by (simp add: queue_inv_def)

lemma queue_inv_wake:
  assumes inv: "queue_inv q w" and p: "w (transaction_id txn) = Some m"
    and wk: "wake_queue txn m q = (res, q1)"
  shows "queue_inv q1 (if res = Blocks then w else w(transaction_id txn := None))"
proof -
  let ?t = "transaction_id txn"
  let ?q1 = "if txn_state txn = ABORTED \<and> upgrading q = ?t
             then q\<lparr>upgrading := INVALID_TXN_ID\<rparr> else q"
  have inv1: "queue_inv ?q1 w" using inv by (simp add: queue_inv_upgrading)
  show ?thesis
  proof (cases "txn_state txn = ABORTED \<and>
                find (\<lambda>r. txn_id r = ?t) (request_queue ?q1) \<noteq> None")
    case True
    with wk have r: "res = Returns False"
      and q1: "q1 = ?q1\<lparr>request_queue := erase_txn ?t (request_queue ?q1)\<rparr>"
      by (auto simp: wake_queue_def Let_def)
    from queue_inv_erase_txn [OF inv1, where t = "transaction_id txn" and u = "upgrading ?q1"]
    show ?thesis unfolding q1 r by simp
  next
    case False
    with wk have q1: "q1 = snd (GrantLock ?t m ?q1)"
      and r: "res = (if fst (GrantLock ?t m ?q1) then Returns True else Blocks)"
      by (auto simp: wake_queue_def Let_def case_prod_beta)
    show ?thesis unfolding q1
      by (rule queue_inv_GrantLock [OF inv1 p]) (auto split: if_splits)
  qed
qed

text \<open>
  Claim C8: in every lock-request queue, of a table or of a row, any two requests marked
  granted have compatible modes under \<^verbatim>\<open>GrantCompatiable\<close>. The property holds in
  every state a queue reaches, and so each granting step (the first \<^verbatim>\<open>GrantLock\<close> of
  a call, the scan in queue order, the grant of an upgrade) preserves it.
\<close>

theorem granted_requests_compatible:
  "queue_reachable q w \<Longrightarrow> granted_compatible (request_queue q)"
proof -
  assume "queue_reachable q w"
  then have "queue_inv q w"
  proof (induction rule: queue_reachable.induct)
    case init
    show ?case by (rule queue_inv_init)
  next
    case (request_table q w txn m o_id txn1 q1)
    then show ?case by (blast intro: queue_inv_UpdateLock_table)
  next
    case (request_row q w txn m o_id r_id txn1 q1)
    then show ?case by (blast intro: queue_inv_UpdateLock_row)
  next
    case (attempt q w t m g q1)
    from attempt.hyps(3) have q1: "q1 = snd (GrantLock t m q)" by simp
    show ?case unfolding q1
      by (rule queue_inv_GrantLock [OF attempt.IH attempt.hyps(2)]) (auto split: if_splits)
  next
    case (wake q w txn m res q1)
    then show ?case by (blast intro: queue_inv_wake)
  next
    case (unlock q w t)
    then show ?case by (blast intro: queue_inv_erase_granted)
  qed
  then show ?thesis by (simp add: queue_inv_def)
qed

theorem granted_requests_compatible_witness:
  "queue_reachable
     \<lparr>request_queue =
        [\<lparr>txn_id = 1, lock_mode = SHARED, oid = 0, rid = None, granted = True\<rparr>,
         \<lparr>txn_id = 2, lock_mode = EXCLUSIVE, oid = 0, rid = None, granted = False\<rparr>],
      upgrading = INVALID_TXN_ID\<rparr>
     (\<lambda>t. if t = 2 then Some EXCLUSIVE else None)
   \<and> granted_compatible
       [\<lparr>txn_id = 1, lock_mode = SHARED, oid = 0, rid = None, granted = True\<rparr>,
        \<lparr>txn_id = 2, lock_mode = EXCLUSIVE, oid = 0, rid = None, granted = False\<rparr>]"
proof -
  let ?r1 = "\<lparr>txn_id = 1, lock_mode = SHARED, oid = 0, rid = None, granted = False\<rparr>"
  let ?g1 = "\<lparr>txn_id = 1, lock_mode = SHARED, oid = 0, rid = None, granted = True\<rparr>"
  let ?r2 = "\<lparr>txn_id = 2, lock_mode = EXCLUSIVE, oid = 0, rid = None, granted = False\<rparr>"
  let ?q1 = "\<lparr>request_queue = [?r1], upgrading = INVALID_TXN_ID\<rparr>"
  let ?q2 = "\<lparr>request_queue = [?g1], upgrading = INVALID_TXN_ID\<rparr>"
  let ?q3 = "\<lparr>request_queue = [?g1, ?r2], upgrading = INVALID_TXN_ID\<rparr>"
  let ?t1 = "new_transaction 1 REPEATABLE_READ"
  let ?t2 = "new_transaction 2 REPEATABLE_READ"
  have u1: "UpdateLock_table ?t1 SHARED 0 empty_queue = (Inr True, ?t1, ?q1)"
    by (simp add: UpdateLock_table_def empty_queue_def new_transaction_def new_table_request_def)
  have s1: "queue_reachable ?q1 ((\<lambda>t. None)(1 \<mapsto> SHARED))"
    using queue_reachable.request_table [OF queue_reachable.init _ u1]
    by (simp add: new_transaction_def)
  have g1: "GrantLock 1 SHARED ?q1 = (True, ?q2)"
    by (simp add: GrantLock_def INVALID_TXN_ID_def)
  have s2: "queue_reachable ?q2 (\<lambda>t. None)"
    using queue_reachable.attempt [OF s1 _ g1] by simp
  have u2: "UpdateLock_table ?t2 EXCLUSIVE 0 ?q2 = (Inr True, ?t2, ?q3)"
    by (simp add: UpdateLock_table_def new_transaction_def new_table_request_def)
  have s3: "queue_reachable ?q3 ((\<lambda>t. None)(2 \<mapsto> EXCLUSIVE))"
    using queue_reachable.request_table [OF s2 _ u2] by (simp add: new_transaction_def)
  have g2: "GrantLock 2 EXCLUSIVE ?q3 = (False, ?q3)"
    by (simp add: GrantLock_def GrantCompatiable_def)
  have w: "(\<lambda>t. None)(2 \<mapsto> EXCLUSIVE) = (\<lambda>t::txn_id_t. if t = 2 then Some EXCLUSIVE else None)"
    by auto
  have s4: "queue_reachable ?q3 (\<lambda>t. if t = 2 then Some EXCLUSIVE else None)"
    using queue_reachable.attempt [OF s3 _ g2] by (simp add: w)
  from granted_requests_compatible [OF s4] s4 show ?thesis by simp
qed

section \<open>LRU-K replacer (buffer/lru\_k\_replacer.cpp)\<close>

type_synonym frame_id_t = int

text \<open>
  An entry of \<^verbatim>\<open>entries_\<close>. The iterator \<^verbatim>\<open>pos_\<close> points at the node of the frame in
  one of the two lists; the model keeps which list that is (\<open>NoPos\<close> for the iterator of
  a default-constructed entry). Erasing through an iterator of the other list is
  undefined behaviour, and the model says so.
\<close>

datatype list_pos = NoPos | InHist | InCache

record FrameEntry =
  hit_count :: nat
  evictable :: bool
  pos :: list_pos

text \<open>
  The lists hold their front at the head. \<^verbatim>\<open>curr_size_\<close> is a \<^verbatim>\<open>size_t\<close> and wraps.
  The declaration of \<^verbatim>\<open>FrameEntry\<close> is not among the sources, so the value of
  \<^verbatim>\<open>evictable_\<close> in a default-constructed entry is the field \<open>evictable_default\<close> of
  the replacer.
\<close>

record LRUKReplacer =
  hist_list :: "frame_id_t list"
  cache_list :: "frame_id_t list"
  entries :: "frame_id_t \<Rightarrow> FrameEntry option"
  curr_size :: "64 word"
  replacer_size :: nat
  k_param :: nat
  evictable_default :: bool

datatype replacer_error = InvalidArgument | LogicError | UndefinedBehaviour

definition LRUKReplacer_new :: "nat \<Rightarrow> nat \<Rightarrow> bool \<Rightarrow> LRUKReplacer" where
  "LRUKReplacer_new num_frames k dflt =
     \<lparr>hist_list = [], cache_list = [], entries = (\<lambda>f. None), curr_size = 0,
      replacer_size = num_frames, k_param = k, evictable_default = dflt\<rparr>"

text \<open>\<^verbatim>\<open>static_cast<int32_t>(replacer_size_)\<close>.\<close>

definition to_int32 :: "nat \<Rightarrow> int" where
  "to_int32 n = sint (word_of_nat n :: 32 word)"

text \<open>\<^verbatim>\<open>entries_[f]\<close>: the entry of the frame, default-constructed and inserted when the
  map has none.\<close>

definition entry_at :: "LRUKReplacer \<Rightarrow> frame_id_t \<Rightarrow> FrameEntry \<times> LRUKReplacer" where
  "entry_at r f =
     (case entries r f of
        Some e \<Rightarrow> (e, r)
      | None \<Rightarrow>
          (let e = \<lparr>hit_count = 0, evictable = evictable_default r, pos = NoPos\<rparr>
           in (e, r\<lparr>entries := (entries r)(f \<mapsto> e)\<rparr>)))"

text \<open>The reverse scan of \<^verbatim>\<open>Evict\<close> over one list, given back to front: the first
  evictable frame is taken out of the list.\<close>

fun evict_scan ::
  "LRUKReplacer \<Rightarrow> frame_id_t list \<Rightarrow> frame_id_t option \<times> frame_id_t list \<times> LRUKReplacer" where
  "evict_scan r [] = (None, [], r)"
| "evict_scan r (f # fs) =
     (let (e, r1) = entry_at r f in
      if evictable e then (Some f, fs, r1)
      else (let (res, fs', r2) = evict_scan r1 fs in (res, f # fs', r2)))"

definition Evict :: "LRUKReplacer \<Rightarrow> frame_id_t option \<times> LRUKReplacer" where
  "Evict r =
     (let (found1, h, r1) = evict_scan r (rev (hist_list r));
          r2 = r1\<lparr>hist_list := rev h\<rparr>;
          (found, r4) =
            (if found1 = None then
               (let (found2, c, r3) = evict_scan r2 (rev (cache_list r2))
                in (found2, r3\<lparr>cache_list := rev c\<rparr>))
             else (found1, r2))
      in case found of
           Some f \<Rightarrow> (Some f, r4\<lparr>entries := (entries r4)(f := None), curr_size := curr_size r4 - 1\<rparr>)
         | None \<Rightarrow> (None, r4))"

definition set_entry :: "frame_id_t \<Rightarrow> FrameEntry \<Rightarrow> LRUKReplacer \<Rightarrow> LRUKReplacer" where
  "set_entry f e r = r\<lparr>entries := (entries r)(f \<mapsto> e)\<rparr>"

definition RecordAccess :: "LRUKReplacer \<Rightarrow> frame_id_t \<Rightarrow> replacer_error + LRUKReplacer" where
  "RecordAccess r f =
     (if f > to_int32 (replacer_size r) then Inl InvalidArgument
      else
        (let (e0, r0) = entry_at r f;
             count = hit_count e0 + 1;
             e = e0\<lparr>hit_count := count\<rparr>;
             r1 = set_entry f e r0
         in if count = 1 then
              Inr (set_entry f (e\<lparr>pos := InHist\<rparr>)
                     (r1\<lparr>curr_size := curr_size r1 + 1, hist_list := f # hist_list r1\<rparr>))
            else if count = k_param r then
              (if pos e = InHist \<and> f \<in> set (hist_list r1) then
                 Inr (set_entry f (e\<lparr>pos := InCache\<rparr>)
                        (r1\<lparr>hist_list := remove1 f (hist_list r1),
                            cache_list := f # cache_list r1\<rparr>))
               else Inl UndefinedBehaviour)
            else if count > k_param r then
              (if pos e = InCache \<and> f \<in> set (cache_list r1) then
                 Inr (set_entry f (e\<lparr>pos := InCache\<rparr>)
                        (r1\<lparr>cache_list := f # remove1 f (cache_list r1)\<rparr>))
               else Inl UndefinedBehaviour)
            else Inr r1))"

definition SetEvictable ::
  "LRUKReplacer \<Rightarrow> frame_id_t \<Rightarrow> bool \<Rightarrow> replacer_error + LRUKReplacer" where
  "SetEvictable r f set_evictable =
     (if f > to_int32 (replacer_size r) then Inl InvalidArgument
      else case entries r f of
             None \<Rightarrow> Inr r
           | Some e \<Rightarrow>
               (let r1 = (if \<not> evictable e \<and> set_evictable then r\<lparr>curr_size := curr_size r + 1\<rparr>
                          else if evictable e \<and> \<not> set_evictable
                            then r\<lparr>curr_size := curr_size r - 1\<rparr>
                          else r)
                in Inr (set_entry f (e\<lparr>evictable := set_evictable\<rparr>) r1)))"

definition Remove :: "LRUKReplacer \<Rightarrow> frame_id_t \<Rightarrow> replacer_error + LRUKReplacer" where
  "Remove r f =
     (if f > to_int32 (replacer_size r) then Inl InvalidArgument
      else case entries r f of
             None \<Rightarrow> Inr r
           | Some e \<Rightarrow>
               if \<not> evictable e then Inl LogicError
               else if hit_count e < k_param r then
                 (if pos e = InHist \<and> f \<in> set (hist_list r) then
                    Inr (r\<lparr>hist_list := remove1 f (hist_list r),
                           curr_size := curr_size r - 1,
                           entries := (entries r)(f := None)\<rparr>)
                  else Inl UndefinedBehaviour)
               else
                 (if pos e = InCache \<and> f \<in> set (cache_list r) then
                    Inr (r\<lparr>cache_list := remove1 f (cache_list r),
                           curr_size := curr_size r - 1,
                           entries := (entries r)(f := None)\<rparr>)
                  else Inl UndefinedBehaviour))"

definition Size :: "LRUKReplacer \<Rightarrow> 64 word" where
  "Size r = curr_size r"

subsection \<open>Recorded accesses over a run of calls\<close>

text \<open>
  The replacer stores no timestamps; the order of its lists stands for them. To state
  which frame an eviction picks, a run of calls carries a clock and, for every frame, the
  time of its first recorded access since its entry was created and the time of its most
  recent recorded access. A call that throws an exception leaves the replacer as it
  was; a run ends (\<open>None\<close>) at undefined behaviour.
\<close>

datatype replacer_call =
  Call_RecordAccess frame_id_t
  | Call_SetEvictable frame_id_t bool
  | Call_Evict
  | Call_Remove frame_id_t

record timed_replacer =
  replacer :: LRUKReplacer
  first_access :: "frame_id_t \<Rightarrow> nat"
  last_access :: "frame_id_t \<Rightarrow> nat"
  now :: nat

definition timed_new :: "nat \<Rightarrow> nat \<Rightarrow> bool \<Rightarrow> timed_replacer" where
  "timed_new num_frames k dflt =
     \<lparr>replacer = LRUKReplacer_new num_frames k dflt,
      first_access = (\<lambda>f. 0), last_access = (\<lambda>f. 0), now = 0\<rparr>"

fun timed_call :: "timed_replacer \<Rightarrow> replacer_call \<Rightarrow> timed_replacer option" where
  "timed_call T (Call_RecordAccess f) =
     (case RecordAccess (replacer T) f of
        Inl UndefinedBehaviour \<Rightarrow> None
      | Inl InvalidArgument \<Rightarrow> Some (T\<lparr>now := now T + 1\<rparr>)
      | Inl LogicError \<Rightarrow> Some (T\<lparr>now := now T + 1\<rparr>)
      | Inr r \<Rightarrow>
          Some \<lparr>replacer = r,
                first_access = (if entries (replacer T) f = None
                                then (first_access T)(f := now T) else first_access T),
                last_access = (last_access T)(f := now T),
                now = now T + 1\<rparr>)"
| "timed_call T (Call_SetEvictable f b) =
     (case SetEvictable (replacer T) f b of
        Inl UndefinedBehaviour \<Rightarrow> None
      | Inl InvalidArgument \<Rightarrow> Some (T\<lparr>now := now T + 1\<rparr>)
      | Inl LogicError \<Rightarrow> Some (T\<lparr>now := now T + 1\<rparr>)
      | Inr r \<Rightarrow> Some (T\<lparr>replacer := r, now := now T + 1\<rparr>))"
| "timed_call T Call_Evict =
     Some (T\<lparr>replacer := snd (Evict (replacer T)), now := now T + 1\<rparr>)"
| "timed_call T (Call_Remove f) =
     (case Remove (replacer T) f of
        Inl UndefinedBehaviour \<Rightarrow> None
      | Inl InvalidArgument \<Rightarrow> Some (T\<lparr>now := now T + 1\<rparr>)
      | Inl LogicError \<Rightarrow> Some (T\<lparr>now := now T + 1\<rparr>)
      | Inr r \<Rightarrow> Some (T\<lparr>replacer := r, now := now T + 1\<rparr>))"

fun timed_run :: "timed_replacer \<Rightarrow> replacer_call list \<Rightarrow> timed_replacer option" where
  "timed_run T [] = Some T"
| "timed_run T (c # cs) =
     (case timed_call T c of None \<Rightarrow> None | Some T' \<Rightarrow> timed_run T' cs)"

text \<open>The classes of the specification: a tracked frame is of the history class with
  fewer than K recorded accesses and of the cache class otherwise.\<close>

definition evictable_frame :: "LRUKReplacer \<Rightarrow> frame_id_t \<Rightarrow> bool" where
  "evictable_frame r f = (case entries r f of None \<Rightarrow> False | Some e \<Rightarrow> evictable e)"

definition history_class :: "LRUKReplacer \<Rightarrow> frame_id_t \<Rightarrow> bool" where
  "history_class r f =
     (case entries r f of None \<Rightarrow> False | Some e \<Rightarrow> hit_count e < k_param r)"

definition cache_class :: "LRUKReplacer \<Rightarrow> frame_id_t \<Rightarrow> bool" where
  "cache_class r f =
     (case entries r f of None \<Rightarrow> False | Some e \<Rightarrow> k_param r \<le> hit_count e)"

text \<open>After a run, \<^verbatim>\<open>Evict\<close> picks frame \<open>f\<close> although \<open>g\<close>, evictable and of the same
  (history) class, has an older most recent access.\<close>

definition evicts_despite_older ::
  "timed_replacer option \<Rightarrow> frame_id_t \<Rightarrow> frame_id_t \<Rightarrow> bool" where
  "evicts_despite_older To f g =
     (case To of
        None \<Rightarrow> False
      | Some T \<Rightarrow>
          fst (Evict (replacer T)) = Some f \<and>
          history_class (replacer T) f \<and> evictable_frame (replacer T) f \<and>
          history_class (replacer T) g \<and> evictable_frame (replacer T) g \<and>
          last_access T g < last_access T f)"

subsection \<open>The check of the frame id\<close>

lemma to_int32_small: "n < 2 ^ 31 \<Longrightarrow> to_int32 n = int n"
proof -
  assume "n < 2 ^ 31"
  then have "int n < 2 ^ 31" by (metis of_nat_less_iff of_nat_numeral of_nat_power)
  moreover have "- (2 ^ 31) \<le> int n" by simp
  ultimately have "signed_take_bit 31 (int n) = int n"
    by (simp add: signed_take_bit_int_eq_self)
  then show ?thesis by (simp add: to_int32_def signed_of_nat)
qed

text \<open>
  Claim C10: for a replacer whose capacity \<open>num_frames\<close> fits \<^verbatim>\<open>int32_t\<close>, each of
  \<^verbatim>\<open>RecordAccess\<close>, \<^verbatim>\<open>SetEvictable\<close> and \<^verbatim>\<open>Remove\<close> throws the invalid-argument
  error exactly when the frame id is strictly greater than \<open>num_frames\<close>. The id
  \<open>num_frames\<close> itself, one past the largest frame index, is accepted: recorded on a
  fresh replacer it gets an entry with one hit at the front of the history list, as any
  frame does.
\<close>

theorem frame_id_rejected_iff_above_capacity:
  assumes "replacer_size r < 2 ^ 31"
  shows "(RecordAccess r f = Inl InvalidArgument \<longleftrightarrow> int (replacer_size r) < f)
       \<and> (SetEvictable r f e = Inl InvalidArgument \<longleftrightarrow> int (replacer_size r) < f)
       \<and> (Remove r f = Inl InvalidArgument \<longleftrightarrow> int (replacer_size r) < f)
       \<and> RecordAccess (LRUKReplacer_new (replacer_size r) k d) (int (replacer_size r)) =
           Inr \<lparr>hist_list = [int (replacer_size r)], cache_list = [],
                entries = (\<lambda>f. None)(int (replacer_size r) \<mapsto>
                            \<lparr>hit_count = 1, evictable = d, pos = InHist\<rparr>),
                curr_size = 1, replacer_size = replacer_size r, k_param = k,
                evictable_default = d\<rparr>"
proof (intro conjI)
  note small = to_int32_small [OF assms]
  show "RecordAccess r f = Inl InvalidArgument \<longleftrightarrow> int (replacer_size r) < f"
    using small by (auto simp: RecordAccess_def Let_def case_prod_beta split: if_splits)
  show "SetEvictable r f e = Inl InvalidArgument \<longleftrightarrow> int (replacer_size r) < f"
    using small by (auto simp: SetEvictable_def Let_def split: option.splits)
  show "Remove r f = Inl InvalidArgument \<longleftrightarrow> int (replacer_size r) < f"
    using small by (auto simp: Remove_def split: option.splits)
  show "RecordAccess (LRUKReplacer_new (replacer_size r) k d) (int (replacer_size r)) =
           Inr \<lparr>hist_list = [int (replacer_size r)], cache_list = [],
                entries = (\<lambda>f. None)(int (replacer_size r) \<mapsto>
                            \<lparr>hit_count = 1, evictable = d, pos = InHist\<rparr>),
                curr_size = 1, replacer_size = replacer_size r, k_param = k,
                evictable_default = d\<rparr>"
    using small
    by (simp add: RecordAccess_def LRUKReplacer_new_def entry_at_def set_entry_def Let_def)
qed

theorem frame_id_rejected_iff_above_capacity_witness:
  "RecordAccess (LRUKReplacer_new 3 2 True) 4 = Inl InvalidArgument
   \<and> RecordAccess (LRUKReplacer_new 3 2 True) 3 \<noteq> Inl InvalidArgument
   \<and> SetEvictable (LRUKReplacer_new 3 2 True) 3 True \<noteq> Inl InvalidArgument
   \<and> Remove (LRUKReplacer_new 3 2 True) 3 \<noteq> Inl InvalidArgument
   \<and> RecordAccess (LRUKReplacer_new 3 2 True) 3 =
       Inr \<lparr>hist_list = [3], cache_list = [],
            entries = (\<lambda>f. None)(3 \<mapsto> \<lparr>hit_count = 1, evictable = True, pos = InHist\<rparr>),
            curr_size = 1, replacer_size = 3, k_param = 2, evictable_default = True\<rparr>"
proof -
  have small: "replacer_size (LRUKReplacer_new 3 2 True) < 2 ^ 31"
    by (simp add: LRUKReplacer_new_def)
  have n: "replacer_size (LRUKReplacer_new 3 2 True) = 3"
    by (simp add: LRUKReplacer_new_def)
  from frame_id_rejected_iff_above_capacity [OF small, of 4 True 2 True]
       frame_id_rejected_iff_above_capacity [OF small, of 3 True 2 True]
  show ?thesis unfolding n by simp
qed

subsection \<open>Well-formed replacers\<close>

text \<open>
  With \<open>K \<ge> 2\<close> the two lists partition the tracked frames by class, without
  repetition, and the iterator of an entry points into the list of its class. Under
  this invariant no call meets undefined behaviour, and every call preserves it.
\<close>

definition lists_ok :: "LRUKReplacer \<Rightarrow> bool" where
  "lists_ok r \<longleftrightarrow>
     2 \<le> k_param r \<and>
     distinct (hist_list r) \<and> distinct (cache_list r) \<and>
     (\<forall>f. f \<in> set (hist_list r) \<longleftrightarrow> history_class r f) \<and>
     (\<forall>f. f \<in> set (cache_list r) \<longleftrightarrow> cache_class r f) \<and>
     (\<forall>f e. entries r f = Some e \<longrightarrow>
        1 \<le> hit_count e \<and> pos e = (if hit_count e < k_param r then InHist else InCache))"

lemma lists_ok_new: "2 \<le> k \<Longrightarrow> lists_ok (LRUKReplacer_new n k d)"
  by (simp add: lists_ok_def LRUKReplacer_new_def history_class_def cache_class_def)

lemma entry_at_tracked: "entries r f = Some e \<Longrightarrow> entry_at r f = (e, r)"
  by (simp add: entry_at_def)

lemma evict_scan_tracked:
  assumes "\<forall>f\<in>set fs. entries r f \<noteq> None"
  shows "evict_scan r fs =
           (find (evictable_frame r) fs,
            (case find (evictable_frame r) fs of None \<Rightarrow> fs | Some f \<Rightarrow> remove1 f fs), r)"
  using assms
proof (induction fs)
  case Nil
  show ?case by simp
next
  case (Cons f fs)
  from Cons.prems obtain e where e: "entries r f = Some e" by auto
  from Cons have IH: "evict_scan r fs =
           (find (evictable_frame r) fs,
            (case find (evictable_frame r) fs of None \<Rightarrow> fs | Some f \<Rightarrow> remove1 f fs), r)"
    by simp
  show ?case
  proof (cases "evictable e")
    case True
    with e have "evictable_frame r f" by (simp add: evictable_frame_def)
    with e True show ?thesis by (simp add: entry_at_tracked)
  next
    case False
    have "g \<noteq> f" if "find (evictable_frame r) fs = Some g" for g
    proof
      assume "g = f"
      with that have "evictable_frame r f" by (auto simp: find_Some_iff)
      with e False show False by (simp add: evictable_frame_def)
    qed
    moreover from e False have "\<not> evictable_frame r f" by (simp add: evictable_frame_def)
    ultimately show ?thesis using e False IH
      by (auto simp: entry_at_tracked split: option.splits)
  qed
qed

lemma hist_tracked: "lists_ok r \<Longrightarrow> \<forall>f\<in>set (hist_list r). entries r f \<noteq> None"
  by (auto simp: lists_ok_def history_class_def split: option.splits)

lemma cache_tracked: "lists_ok r \<Longrightarrow> \<forall>f\<in>set (cache_list r). entries r f \<noteq> None"
  by (auto simp: lists_ok_def cache_class_def split: option.splits)

lemma rev_remove1_rev: "distinct xs \<Longrightarrow> rev (remove1 f (rev xs)) = removeAll f xs"
  by (simp add: distinct_remove1_removeAll removeAll_filter_not_eq rev_filter)

text \<open>What Evict does on a well-formed replacer.\<close>

lemma Evict_hist:
  assumes ok: "lists_ok r" and f: "find (evictable_frame r) (rev (hist_list r)) = Some f"
  shows "Evict r = (Some f, r\<lparr>hist_list := removeAll f (hist_list r),
                              entries := (entries r)(f := None),
                              curr_size := curr_size r - 1\<rparr>)"
proof -
  from ok have d: "distinct (hist_list r)" by (simp add: lists_ok_def)
  have "\<forall>g\<in>set (rev (hist_list r)). entries r g \<noteq> None"
    using hist_tracked [OF ok] by simp
  from evict_scan_tracked [OF this] f
  have "evict_scan r (rev (hist_list r)) = (Some f, remove1 f (rev (hist_list r)), r)"
    by simp
  then show ?thesis
    by (simp add: Evict_def rev_remove1_rev [OF d])
qed

lemma Evict_cache:
  assumes ok: "lists_ok r" and h: "find (evictable_frame r) (rev (hist_list r)) = None"
    and f: "find (evictable_frame r) (rev (cache_list r)) = Some f"
  shows "Evict r = (Some f, r\<lparr>cache_list := removeAll f (cache_list r),
                              entries := (entries r)(f := None),
                              curr_size := curr_size r - 1\<rparr>)"
proof -
  from ok have d: "distinct (cache_list r)" by (simp add: lists_ok_def)
  have "\<forall>g\<in>set (rev (hist_list r)). entries r g \<noteq> None"
    using hist_tracked [OF ok] by simp
  from evict_scan_tracked [OF this] h
  have s1: "evict_scan r (rev (hist_list r)) = (None, rev (hist_list r), r)"
    by simp
  have "\<forall>g\<in>set (rev (cache_list r)). entries r g \<noteq> None"
    using cache_tracked [OF ok] by simp
  from evict_scan_tracked [OF this] f
  have s2: "evict_scan r (rev (cache_list r)) = (Some f, remove1 f (rev (cache_list r)), r)"
    by simp
  have r: "r\<lparr>hist_list := hist_list r\<rparr> = r" by simp
  show ?thesis
    by (simp add: Evict_def s1 r s2 rev_remove1_rev [OF d])
qed

lemma Evict_none:
  assumes ok: "lists_ok r" and h: "find (evictable_frame r) (rev (hist_list r)) = None"
    and c: "find (evictable_frame r) (rev (cache_list r)) = None"
  shows "Evict r = (None, r)"
proof -
  have "\<forall>g\<in>set (rev (hist_list r)). entries r g \<noteq> None"
    using hist_tracked [OF ok] by simp
  from evict_scan_tracked [OF this] h
  have s1: "evict_scan r (rev (hist_list r)) = (None, rev (hist_list r), r)"
    by simp
  have "\<forall>g\<in>set (rev (cache_list r)). entries r g \<noteq> None"
    using cache_tracked [OF ok] by simp
  from evict_scan_tracked [OF this] c
  have s2: "evict_scan r (rev (cache_list r)) = (None, rev (cache_list r), r)"
    by simp
  have r: "r\<lparr>hist_list := hist_list r\<rparr> = r" "r\<lparr>cache_list := cache_list r\<rparr> = r" by simp_all
  show ?thesis
    by (simp add: Evict_def s1 r s2)
qed


lemma class_exclusive: "history_class r f \<Longrightarrow> \<not> cache_class r f"
  by (auto simp: history_class_def cache_class_def split: option.splits)

lemma lists_ok_drop:
  assumes ok: "lists_ok r"
  shows "lists_ok (r\<lparr>hist_list := removeAll f (hist_list r),
                     cache_list := removeAll f (cache_list r),
                     entries := (entries r)(f := None), curr_size := c\<rparr>)"
  using ok unfolding lists_ok_def history_class_def cache_class_def
  by (simp add: distinct_removeAll cong: option.case_cong)

lemma not_in_cache: "lists_ok r \<Longrightarrow> f \<in> set (hist_list r) \<Longrightarrow> f \<notin> set (cache_list r)"
  by (auto simp: lists_ok_def dest: class_exclusive)

lemma not_in_hist: "lists_ok r \<Longrightarrow> f \<in> set (cache_list r) \<Longrightarrow> f \<notin> set (hist_list r)"
  by (auto simp: lists_ok_def dest: class_exclusive)

lemma untracked_not_listed:
  "lists_ok r \<Longrightarrow> entries r f = None \<Longrightarrow> f \<notin> set (hist_list r) \<and> f \<notin> set (cache_list r)"
  by (simp add: lists_ok_def history_class_def cache_class_def)

lemma RecordAccess_new:
  assumes "lists_ok r" "\<not> f > to_int32 (replacer_size r)" "entries r f = None"
  shows "RecordAccess r f =
     Inr (r\<lparr>entries := (entries r)(f \<mapsto> \<lparr>hit_count = 1, evictable = evictable_default r,
                                               pos = InHist\<rparr>),
            curr_size := curr_size r + 1, hist_list := f # hist_list r\<rparr>)"
  using assms by (simp add: RecordAccess_def entry_at_def set_entry_def Let_def)

lemma RecordAccess_hist:
  assumes "lists_ok r" "\<not> f > to_int32 (replacer_size r)" "entries r f = Some e"
    and "hit_count e + 1 < k_param r"
  shows "RecordAccess r f = Inr (r\<lparr>entries := (entries r)(f \<mapsto> e\<lparr>hit_count := hit_count e + 1\<rparr>)\<rparr>)"
proof -
  from assms(1,3) have "1 \<le> hit_count e" by (simp add: lists_ok_def)
  with assms show ?thesis
    by (simp add: RecordAccess_def entry_at_def set_entry_def Let_def)
qed

lemma RecordAccess_promote:
  assumes "lists_ok r" "\<not> f > to_int32 (replacer_size r)" "entries r f = Some e"
    and "hit_count e + 1 = k_param r"
  shows "RecordAccess r f =
     Inr (r\<lparr>entries := (entries r)(f \<mapsto> e\<lparr>hit_count := hit_count e + 1, pos := InCache\<rparr>),
            hist_list := removeAll f (hist_list r), cache_list := f # cache_list r\<rparr>)"
proof -
  from assms(1,3) have c: "1 \<le> hit_count e" and p: "pos e = (if hit_count e < k_param r then InHist else InCache)"
    by (simp_all add: lists_ok_def)
  from assms(4) have lt: "hit_count e < k_param r" by simp
  with assms(1,3) have h: "f \<in> set (hist_list r)" by (simp add: lists_ok_def history_class_def)
  from assms(1) have d: "distinct (hist_list r)" by (simp add: lists_ok_def)
  from c p lt h assms show ?thesis
    by (simp add: RecordAccess_def entry_at_def set_entry_def Let_def
          distinct_remove1_removeAll [OF d])
qed

lemma RecordAccess_cache:
  assumes "lists_ok r" "\<not> f > to_int32 (replacer_size r)" "entries r f = Some e"
    and "k_param r \<le> hit_count e"
  shows "RecordAccess r f =
     Inr (r\<lparr>entries := (entries r)(f \<mapsto> e\<lparr>hit_count := hit_count e + 1, pos := InCache\<rparr>),
            cache_list := f # removeAll f (cache_list r)\<rparr>)"
proof -
  from assms(1,3) have c: "1 \<le> hit_count e" and p: "pos e = (if hit_count e < k_param r then InHist else InCache)"
    by (simp_all add: lists_ok_def)
  from assms(1,3,4) have h: "f \<in> set (cache_list r)" by (simp add: lists_ok_def cache_class_def)
  from assms(1) have d: "distinct (cache_list r)" by (simp add: lists_ok_def)
  from c p h assms show ?thesis
    by (simp add: RecordAccess_def entry_at_def set_entry_def Let_def
          distinct_remove1_removeAll [OF d])
qed


lemma lists_ok_RecordAccess:
  assumes ok: "lists_ok r" and ra: "RecordAccess r f = Inr r'"
  shows "lists_ok r'"
proof -
  from ra have v: "\<not> f > to_int32 (replacer_size r)"
    by (auto simp: RecordAccess_def split: if_splits)
  from ok have k2: "2 \<le> k_param r" by (simp add: lists_ok_def)
  show ?thesis
  proof (cases "entries r f")
    case None
    from untracked_not_listed [OF ok None] ok k2
    have "lists_ok (r\<lparr>entries := (entries r)(f \<mapsto> \<lparr>hit_count = 1,
              evictable = evictable_default r, pos = InHist\<rparr>),
            curr_size := curr_size r + 1, hist_list := f # hist_list r\<rparr>)"
      unfolding lists_ok_def history_class_def cache_class_def
      by (auto cong: option.case_cong)
    with RecordAccess_new [OF ok v None] ra show ?thesis by simp
  next
    case (Some e)
    from ok Some have c: "1 \<le> hit_count e" by (simp add: lists_ok_def)
    consider (hist) "hit_count e + 1 < k_param r" | (promote) "hit_count e + 1 = k_param r"
      | (cache) "k_param r \<le> hit_count e" by linarith
    then show ?thesis
    proof cases
      case hist
      from ok Some hist
      have "lists_ok (r\<lparr>entries := (entries r)(f \<mapsto> e\<lparr>hit_count := hit_count e + 1\<rparr>)\<rparr>)"
        unfolding lists_ok_def history_class_def cache_class_def
        by (auto cong: option.case_cong)
      with RecordAccess_hist [OF ok v Some hist] ra show ?thesis by simp
    next
      case promote
      from ok Some promote
      have "lists_ok (r\<lparr>entries := (entries r)(f \<mapsto> e\<lparr>hit_count := hit_count e + 1, pos := InCache\<rparr>),
            hist_list := removeAll f (hist_list r), cache_list := f # cache_list r\<rparr>)"
        unfolding lists_ok_def history_class_def cache_class_def
        by (auto simp: distinct_removeAll cong: option.case_cong)
      with RecordAccess_promote [OF ok v Some promote] ra show ?thesis by simp
    next
      case cache
      from ok Some cache
      have "lists_ok (r\<lparr>entries := (entries r)(f \<mapsto> e\<lparr>hit_count := hit_count e + 1, pos := InCache\<rparr>),
            cache_list := f # removeAll f (cache_list r)\<rparr>)"
        unfolding lists_ok_def history_class_def cache_class_def
        by (auto simp: distinct_removeAll cong: option.case_cong)
      with RecordAccess_cache [OF ok v Some cache] ra show ?thesis by simp
    qed
  qed
qed

lemma RecordAccess_defined:
  assumes ok: "lists_ok r"
  shows "RecordAccess r f \<noteq> Inl UndefinedBehaviour \<and> RecordAccess r f \<noteq> Inl LogicError"
proof (cases "f > to_int32 (replacer_size r)")
  case True
  then show ?thesis by (simp add: RecordAccess_def)
next
  case v: False
  show ?thesis
  proof (cases "entries r f")
    case None
    from RecordAccess_new [OF ok v None] show ?thesis by simp
  next
    case (Some e)
    consider (hist) "hit_count e + 1 < k_param r" | (promote) "hit_count e + 1 = k_param r"
      | (cache) "k_param r \<le> hit_count e" by linarith
    then show ?thesis
    proof cases
      case hist
      from RecordAccess_hist [OF ok v Some hist] show ?thesis by simp
    next
      case promote
      from RecordAccess_promote [OF ok v Some promote] show ?thesis by simp
    next
      case cache
      from RecordAccess_cache [OF ok v Some cache] show ?thesis by simp
    qed
  qed
qed

lemma lists_ok_SetEvictable:
  assumes ok: "lists_ok r" and se: "SetEvictable r f b = Inr r'"
  shows "lists_ok r'"
proof (cases "entries r f")
  case None
  with se ok show ?thesis by (auto simp: SetEvictable_def split: if_splits)
next
  case (Some e)
  with se have r': "r' = set_entry f (e\<lparr>evictable := b\<rparr>)
      (if \<not> evictable e \<and> b then r\<lparr>curr_size := curr_size r + 1\<rparr>
       else if evictable e \<and> \<not> b then r\<lparr>curr_size := curr_size r - 1\<rparr> else r)"
    by (auto simp: SetEvictable_def Let_def split: if_splits)
  from ok Some show ?thesis
    unfolding r' lists_ok_def history_class_def cache_class_def set_entry_def
    by (auto cong: option.case_cong)
qed

lemma Remove_tracked:
  assumes ok: "lists_ok r" and v: "\<not> f > to_int32 (replacer_size r)"
    and e: "entries r f = Some e" "evictable e"
  shows "Remove r f = Inr (r\<lparr>hist_list := removeAll f (hist_list r),
                              cache_list := removeAll f (cache_list r),
                              entries := (entries r)(f := None),
                              curr_size := curr_size r - 1\<rparr>)"
proof (cases "hit_count e < k_param r")
  case True
  with ok e have h: "f \<in> set (hist_list r)" "pos e = InHist"
    by (simp_all add: lists_ok_def history_class_def)
  from not_in_cache [OF ok h(1)] have "removeAll f (cache_list r) = cache_list r" by simp
  moreover from ok have "remove1 f (hist_list r) = removeAll f (hist_list r)"
    by (simp add: lists_ok_def distinct_remove1_removeAll)
  ultimately show ?thesis using v e True h by (simp add: Remove_def)
next
  case False
  with ok e have h: "f \<in> set (cache_list r)" "pos e = InCache"
    by (simp_all add: lists_ok_def cache_class_def)
  from not_in_hist [OF ok h(1)] have "removeAll f (hist_list r) = hist_list r" by simp
  moreover from ok have "remove1 f (cache_list r) = removeAll f (cache_list r)"
    by (simp add: lists_ok_def distinct_remove1_removeAll)
  ultimately show ?thesis using v e False h by (simp add: Remove_def)
qed

lemma Remove_cases:
  assumes ok: "lists_ok r"
  shows "Remove r f = Inl InvalidArgument \<or> Remove r f = Inl LogicError \<or> Remove r f = Inr r
       \<or> Remove r f = Inr (r\<lparr>hist_list := removeAll f (hist_list r),
                              cache_list := removeAll f (cache_list r),
                              entries := (entries r)(f := None),
                              curr_size := curr_size r - 1\<rparr>)"
proof (cases "f > to_int32 (replacer_size r)")
  case True
  then show ?thesis by (simp add: Remove_def)
next
  case v: False
  show ?thesis
  proof (cases "entries r f")
    case None
    with v show ?thesis by (simp add: Remove_def)
  next
    case (Some e)
    show ?thesis
    proof (cases "evictable e")
      case True
      from Remove_tracked [OF ok v Some True] show ?thesis by simp
    next
      case False
      with v Some show ?thesis by (simp add: Remove_def)
    qed
  qed
qed

lemma find_SomeD: "find P xs = Some x \<Longrightarrow> x \<in> set xs \<and> P x"
  by (induction xs) (auto split: if_splits)

lemma Evict_cases:
  assumes ok: "lists_ok r"
  shows "Evict r = (None, r) \<or>
         (\<exists>f. Evict r = (Some f, r\<lparr>hist_list := removeAll f (hist_list r),
                              cache_list := removeAll f (cache_list r),
                              entries := (entries r)(f := None),
                              curr_size := curr_size r - 1\<rparr>))"
proof (cases "find (evictable_frame r) (rev (hist_list r))")
  case None
  show ?thesis
  proof (cases "find (evictable_frame r) (rev (cache_list r))")
    case n: None
    from Evict_none [OF ok None n] show ?thesis ..
  next
    case (Some f)
    then have "f \<in> set (cache_list r)" by (auto dest: find_SomeD)
    from not_in_hist [OF ok this] have "removeAll f (hist_list r) = hist_list r" by simp
    with Evict_cache [OF ok None Some] show ?thesis by auto
  qed
next
  case (Some f)
  then have "f \<in> set (hist_list r)" by (auto dest: find_SomeD)
  from not_in_cache [OF ok this] have "removeAll f (cache_list r) = cache_list r" by simp
  with Evict_hist [OF ok Some] show ?thesis by auto
qed

lemma lists_ok_Evict: "lists_ok r \<Longrightarrow> lists_ok (snd (Evict r))"
  using Evict_cases [of r] lists_ok_drop [where r = r] by auto

lemma lists_ok_Remove: "lists_ok r \<Longrightarrow> Remove r f = Inr r' \<Longrightarrow> lists_ok r'"
  using Remove_cases [of r f] lists_ok_drop [where r = r and f = f] by auto

subsection \<open>Which frame an eviction picks\<close>

text \<open>
  Claim C3, as stated, fails in the history class: a frame accessed again before its
  K-th access keeps its place in the history list, so the list is ordered by the
  \<^emph>\<open>first\<close> access. With \<open>K = 3\<close>, after the accesses 0, 1, 0 both frames are evictable
  and of the history class; frame 1 has the older most recent access, and \<^verbatim>\<open>Evict\<close>
  picks frame 0.
\<close>

theorem evict_history_ignores_most_recent_access:
  "evicts_despite_older
     (timed_run (timed_new 5 3 True)
        [Call_RecordAccess 0, Call_RecordAccess 1, Call_RecordAccess 0,
         Call_SetEvictable 0 True, Call_SetEvictable 1 True]) 0 1"
proof -
  have "to_int32 5 = 5" by (simp add: to_int32_def)
  then show ?thesis
    by (simp add: evicts_despite_older_def timed_new_def LRUKReplacer_new_def RecordAccess_def
        SetEvictable_def Evict_def entry_at_def set_entry_def Let_def
        history_class_def evictable_frame_def)
qed

text \<open>The order of the lists against the clock: the history list is ordered by first
  access and the cache list by most recent access, newest at the front.\<close>

definition times_ok :: "timed_replacer \<Rightarrow> bool" where
  "times_ok T \<longleftrightarrow>
     (\<forall>f. entries (replacer T) f \<noteq> None \<longrightarrow>
            first_access T f < now T \<and> last_access T f < now T) \<and>
     sorted_wrt (\<lambda>a b. first_access T b < first_access T a) (hist_list (replacer T)) \<and>
     sorted_wrt (\<lambda>a b. last_access T b < last_access T a) (cache_list (replacer T))"

definition timed_inv :: "timed_replacer \<Rightarrow> bool" where
  "timed_inv T \<longleftrightarrow> lists_ok (replacer T) \<and> times_ok T"

lemma sorted_push_newest:
  assumes "sorted_wrt (\<lambda>a b. t b < t a) xs" "\<forall>x\<in>set xs. t x < (n::nat)"
  shows "sorted_wrt (\<lambda>a b. (t(f := n)) b < (t(f := n)) a) (f # removeAll f xs)"
proof -
  have "sorted_wrt (\<lambda>a b. t b < t a) (removeAll f xs)"
    using assms(1) by (simp add: removeAll_filter_not_eq sorted_wrt_filter)
  then have "sorted_wrt (\<lambda>a b. (t(f := n)) b < (t(f := n)) a) (removeAll f xs)"
    by (rule sorted_wrt_mono_rel [rotated]) auto
  with assms(2) show ?thesis by auto
qed

lemma sorted_untouched:
  assumes "sorted_wrt (\<lambda>a b. t b < t a) xs" "f \<notin> set xs"
  shows "sorted_wrt (\<lambda>a b. (t(f := n)) b < (t(f := n)) a) xs"
  using assms(1) by (rule sorted_wrt_mono_rel [rotated]) (use assms(2) in auto)

lemma sorted_removeAll:
  "sorted_wrt P xs \<Longrightarrow> sorted_wrt P (removeAll f xs)"
  by (simp add: removeAll_filter_not_eq sorted_wrt_filter)

lemma tracked_hist: "lists_ok r \<Longrightarrow> f \<in> set (hist_list r) \<Longrightarrow> entries r f \<noteq> None"
  using hist_tracked by blast

lemma tracked_cache: "lists_ok r \<Longrightarrow> f \<in> set (cache_list r) \<Longrightarrow> entries r f \<noteq> None"
  using cache_tracked by blast

lemma times_ok_tick: "times_ok T \<Longrightarrow> times_ok (T\<lparr>now := now T + 1\<rparr>)"
  by (auto simp: times_ok_def)

lemma times_ok_drop:
  assumes "times_ok T"
  shows "times_ok (T\<lparr>replacer := (replacer T)\<lparr>hist_list := removeAll f (hist_list (replacer T)),
                              cache_list := removeAll f (cache_list (replacer T)),
                              entries := (entries (replacer T))(f := None),
                              curr_size := c\<rparr>, now := now T + 1\<rparr>)"
  using assms by (auto simp: times_ok_def sorted_removeAll)

lemma times_ok_RecordAccess:
  assumes ok: "lists_ok (replacer T)" and t: "times_ok T"
    and ra: "RecordAccess (replacer T) f = Inr r'"
  shows "times_ok \<lparr>replacer = r',
                first_access = (if entries (replacer T) f = None
                                then (first_access T)(f := now T) else first_access T),
                last_access = (last_access T)(f := now T),
                now = now T + 1\<rparr>"
proof -
  let ?r = "replacer T"
  from ra have v: "\<not> f > to_int32 (replacer_size ?r)"
    by (auto simp: RecordAccess_def split: if_splits)
  from t have sh: "sorted_wrt (\<lambda>a b. first_access T b < first_access T a) (hist_list ?r)"
    and sc: "sorted_wrt (\<lambda>a b. last_access T b < last_access T a) (cache_list ?r)"
    and bound: "\<And>g. entries ?r g \<noteq> None \<Longrightarrow> first_access T g < now T \<and> last_access T g < now T"
    by (simp_all add: times_ok_def)
  have bh: "\<forall>x\<in>set (hist_list ?r). first_access T x < now T"
    using bound tracked_hist [OF ok] by blast
  have bc: "\<forall>x\<in>set (cache_list ?r). last_access T x < now T"
    using bound tracked_cache [OF ok] by blast
  show ?thesis
  proof (cases "entries ?r f")
    case None
    from untracked_not_listed [OF ok None]
    have nl: "f \<notin> set (hist_list ?r)" "f \<notin> set (cache_list ?r)" by simp_all
    from RecordAccess_new [OF ok v None] ra
    have r': "r' = ?r\<lparr>entries := (entries ?r)(f \<mapsto> \<lparr>hit_count = 1,
                 evictable = evictable_default ?r, pos = InHist\<rparr>),
               curr_size := curr_size ?r + 1, hist_list := f # hist_list ?r\<rparr>" by simp
    from sorted_push_newest [OF sh bh, of f] nl(1)
    have "sorted_wrt (\<lambda>a b. ((first_access T)(f := now T)) b < ((first_access T)(f := now T)) a)
            (f # hist_list ?r)" by simp
    moreover from sorted_untouched [OF sc nl(2)]
    have "sorted_wrt (\<lambda>a b. ((last_access T)(f := now T)) b < ((last_access T)(f := now T)) a)
            (cache_list ?r)" .
    moreover have "\<forall>g. entries r' g \<noteq> None \<longrightarrow>
        ((first_access T)(f := now T)) g < now T + 1 \<and> ((last_access T)(f := now T)) g < now T + 1"
      using bound unfolding r' by (auto simp: less_Suc_eq)
    ultimately show ?thesis using None unfolding times_ok_def r' by simp
  next
    case (Some e)
    have dom: "entries r' g \<noteq> None \<Longrightarrow> entries ?r g \<noteq> None" for g
    proof -
      assume a: "entries r' g \<noteq> None"
      consider (hist) "hit_count e + 1 < k_param ?r" | (promote) "hit_count e + 1 = k_param ?r"
        | (cache) "k_param ?r \<le> hit_count e" by linarith
      then show ?thesis
      proof cases
        case hist
        from RecordAccess_hist [OF ok v Some hist] ra a Some show ?thesis
          by (auto split: if_splits)
      next
        case promote
        from RecordAccess_promote [OF ok v Some promote] ra a Some show ?thesis
          by (auto split: if_splits)
      next
        case cache
        from RecordAccess_cache [OF ok v Some cache] ra a Some show ?thesis
          by (auto split: if_splits)
      qed
    qed
    have b': "\<forall>g. entries r' g \<noteq> None \<longrightarrow>
        first_access T g < now T + 1 \<and> ((last_access T)(f := now T)) g < now T + 1"
      using bound dom by (auto simp: less_Suc_eq)
    consider (hist) "hit_count e + 1 < k_param ?r" | (promote) "hit_count e + 1 = k_param ?r"
      | (cache) "k_param ?r \<le> hit_count e" by linarith
    then have "sorted_wrt (\<lambda>a b. first_access T b < first_access T a) (hist_list r') \<and>
      sorted_wrt (\<lambda>a b. ((last_access T)(f := now T)) b < ((last_access T)(f := now T)) a)
        (cache_list r')"
    proof cases
      case hist
      with ok Some have "f \<in> set (hist_list ?r)"
        by (simp add: lists_ok_def history_class_def)
      from not_in_cache [OF ok this] have "f \<notin> set (cache_list ?r)" .
      from sorted_untouched [OF sc this] sh RecordAccess_hist [OF ok v Some hist] ra
      show ?thesis by auto
    next
      case promote
      with ok Some have "f \<in> set (hist_list ?r)"
        by (simp add: lists_ok_def history_class_def)
      from not_in_cache [OF ok this] have "removeAll f (cache_list ?r) = cache_list ?r" by simp
      with sorted_push_newest [OF sc bc, of f] sorted_removeAll [OF sh, of f]
        RecordAccess_promote [OF ok v Some promote] ra
      show ?thesis by auto
    next
      case cache
      from sorted_push_newest [OF sc bc, of f] sh RecordAccess_cache [OF ok v Some cache] ra
      show ?thesis by auto
    qed
    with b' Some show ?thesis unfolding times_ok_def by simp
  qed
qed


lemma SetEvictable_lists:
  assumes "SetEvictable r f b = Inr r'"
  shows "hist_list r' = hist_list r \<and> cache_list r' = cache_list r \<and>
         (\<forall>g. entries r' g \<noteq> None \<longleftrightarrow> entries r g \<noteq> None)"
  using assms
  by (auto simp: SetEvictable_def set_entry_def Let_def split: if_splits option.splits)

lemma times_ok_SetEvictable:
  assumes "times_ok T" "SetEvictable (replacer T) f b = Inr r'"
  shows "times_ok (T\<lparr>replacer := r', now := now T + 1\<rparr>)"
  using assms(1) SetEvictable_lists [OF assms(2)]
  by (auto simp: times_ok_def less_Suc_eq)

lemma timed_inv_new: "2 \<le> k \<Longrightarrow> timed_inv (timed_new n k d)"
  using lists_ok_new [of k n d]
  by (simp add: timed_inv_def timed_new_def times_ok_def LRUKReplacer_new_def)

lemma timed_inv_call:
  assumes inv: "timed_inv T" and c: "timed_call T c = Some T'"
  shows "timed_inv T'"
proof -
  from inv have ok: "lists_ok (replacer T)" and t: "times_ok T"
    by (simp_all add: timed_inv_def)
  have tick: "timed_inv (T\<lparr>now := now T + 1\<rparr>)"
    using ok times_ok_tick [OF t] by (simp add: timed_inv_def)
  show ?thesis
  proof (cases c)
    case (Call_RecordAccess f)
    show ?thesis
    proof (cases "RecordAccess (replacer T) f")
      case (Inl err)
      with c Call_RecordAccess tick show ?thesis by (cases err) auto
    next
      case (Inr r')
      with c Call_RecordAccess
      have T': "T' = \<lparr>replacer = r',
                first_access = (if entries (replacer T) f = None
                                then (first_access T)(f := now T) else first_access T),
                last_access = (last_access T)(f := now T),
                now = now T + 1\<rparr>" by simp
      from lists_ok_RecordAccess [OF ok Inr] times_ok_RecordAccess [OF ok t Inr]
      show ?thesis unfolding T' by (simp add: timed_inv_def)
    qed
  next
    case (Call_SetEvictable f b)
    show ?thesis
    proof (cases "SetEvictable (replacer T) f b")
      case (Inl err)
      with c Call_SetEvictable tick show ?thesis by (cases err) auto
    next
      case (Inr r')
      with c Call_SetEvictable have T': "T' = T\<lparr>replacer := r', now := now T + 1\<rparr>" by simp
      from lists_ok_SetEvictable [OF ok Inr] times_ok_SetEvictable [OF t Inr]
      show ?thesis unfolding T' by (simp add: timed_inv_def)
    qed
  next
    case Call_Evict
    with c have T': "T' = T\<lparr>replacer := snd (Evict (replacer T)), now := now T + 1\<rparr>" by simp
    from Evict_cases [OF ok] show ?thesis
    proof
      assume "Evict (replacer T) = (None, replacer T)"
      with tick show ?thesis unfolding T' by simp
    next
      assume "\<exists>f. Evict (replacer T) =
        (Some f, (replacer T)\<lparr>hist_list := removeAll f (hist_list (replacer T)),
                              cache_list := removeAll f (cache_list (replacer T)),
                              entries := (entries (replacer T))(f := None),
                              curr_size := curr_size (replacer T) - 1\<rparr>)"
      then obtain f where "Evict (replacer T) =
        (Some f, (replacer T)\<lparr>hist_list := removeAll f (hist_list (replacer T)),
                              cache_list := removeAll f (cache_list (replacer T)),
                              entries := (entries (replacer T))(f := None),
                              curr_size := curr_size (replacer T) - 1\<rparr>)" ..
      with lists_ok_drop [OF ok, where f = f] times_ok_drop [OF t, where f = f]
      show ?thesis unfolding T' by (simp add: timed_inv_def)
    qed
  next
    case (Call_Remove f)
    show ?thesis
    proof (cases "Remove (replacer T) f")
      case (Inl err)
      with c Call_Remove tick show ?thesis by (cases err) auto
    next
      case (Inr r')
      with c Call_Remove have T': "T' = T\<lparr>replacer := r', now := now T + 1\<rparr>" by simp
      from Remove_cases [OF ok, of f] Inr
      have "r' = replacer T \<or> r' = (replacer T)\<lparr>hist_list := removeAll f (hist_list (replacer T)),
                              cache_list := removeAll f (cache_list (replacer T)),
                              entries := (entries (replacer T))(f := None),
                              curr_size := curr_size (replacer T) - 1\<rparr>" by auto
      then show ?thesis
      proof
        assume "r' = replacer T"
        with tick show ?thesis unfolding T' by simp
      next
        assume "r' = (replacer T)\<lparr>hist_list := removeAll f (hist_list (replacer T)),
                              cache_list := removeAll f (cache_list (replacer T)),
                              entries := (entries (replacer T))(f := None),
                              curr_size := curr_size (replacer T) - 1\<rparr>"
        with lists_ok_drop [OF ok, where f = f] times_ok_drop [OF t, where f = f]
        show ?thesis unfolding T' by (simp add: timed_inv_def)
      qed
    qed
  qed
qed

lemma timed_inv_run:
  "timed_inv T \<Longrightarrow> timed_run T cs = Some T' \<Longrightarrow> timed_inv T'"
proof (induction cs arbitrary: T)
  case Nil
  then show ?case by simp
next
  case (Cons c cs)
  from Cons.prems(2) obtain T1 where c: "timed_call T c = Some T1" and r: "timed_run T1 cs = Some T'"
    by (auto split: option.splits)
  from Cons.IH [OF timed_inv_call [OF Cons.prems(1) c] r] show ?case .
qed

text \<open>The last element of a list that satisfies a predicate stands behind every other
  element that satisfies it.\<close>

lemma find_rev_last:
  assumes f: "find P (rev xs) = Some f" and s: "sorted_wrt R xs" and g: "g \<in> set xs" "P g" "g \<noteq> f"
  shows "R g f"
proof -
  from f obtain i where i: "i < length (rev xs)" "rev xs ! i = f"
    and before: "\<forall>j<i. \<not> P (rev xs ! j)"
    by (auto simp: find_Some_iff)
  from g(1) obtain j where j: "j < length (rev xs)" "rev xs ! j = g"
    by (metis in_set_conv_nth set_rev)
  from before j g(2) have "\<not> j < i" by auto
  moreover from j i g(3) have "j \<noteq> i" by auto
  ultimately have ij: "i < j" by simp
  from s have "sorted_wrt (\<lambda>a b. R b a) (rev xs)" by (simp add: sorted_wrt_rev)
  from sorted_wrt_nth_less [OF this ij j(1)] i j show ?thesis by simp
qed

text \<open>
  Claim C3, amended (for \<open>K \<ge> 2\<close>): whenever \<^verbatim>\<open>Evict\<close> succeeds after a run of calls on
  a fresh replacer, the frame it returns is evictable; it is of the history class if any
  evictable frame of the history class exists, and then no evictable frame of that class
  has an older \<^emph>\<open>first\<close> recorded access; otherwise it is of the cache class, and no
  evictable frame of the cache class has an older most recent recorded access.
\<close>

theorem evict_picks_oldest_of_class:
  assumes run: "timed_run (timed_new n k d) calls = Some T" and k: "2 \<le> k"
    and ev: "Evict (replacer T) = (Some f, r')"
  shows "evictable_frame (replacer T) f \<and>
         (if \<exists>g. history_class (replacer T) g \<and> evictable_frame (replacer T) g
          then history_class (replacer T) f \<and>
               (\<forall>g. history_class (replacer T) g \<and> evictable_frame (replacer T) g
                     \<longrightarrow> first_access T f \<le> first_access T g)
          else cache_class (replacer T) f \<and>
               (\<forall>g. cache_class (replacer T) g \<and> evictable_frame (replacer T) g
                     \<longrightarrow> last_access T f \<le> last_access T g))"
proof -
  let ?r = "replacer T"
  from timed_inv_run [OF timed_inv_new [OF k] run]
  have ok: "lists_ok ?r" and t: "times_ok T" by (simp_all add: timed_inv_def)
  from ok have hc: "\<And>g. g \<in> set (hist_list ?r) \<longleftrightarrow> history_class ?r g"
    and cc: "\<And>g. g \<in> set (cache_list ?r) \<longleftrightarrow> cache_class ?r g"
    by (simp_all add: lists_ok_def)
  from t have sh: "sorted_wrt (\<lambda>a b. first_access T b < first_access T a) (hist_list ?r)"
    and sc: "sorted_wrt (\<lambda>a b. last_access T b < last_access T a) (cache_list ?r)"
    by (simp_all add: times_ok_def)
  show ?thesis
  proof (cases "find (evictable_frame ?r) (rev (hist_list ?r))")
    case (Some f')
    from Evict_hist [OF ok Some] ev have f': "f' = f" by simp
    from find_SomeD [OF Some] f' have fh: "history_class ?r f" and fe: "evictable_frame ?r f"
      by (simp_all add: hc)
    have "first_access T f \<le> first_access T g"
      if "history_class ?r g" "evictable_frame ?r g" for g
    proof (cases "g = f")
      case True
      then show ?thesis by simp
    next
      case False
      from that(1) have "g \<in> set (hist_list ?r)" by (simp add: hc)
      from find_rev_last [OF Some [unfolded f'] sh this that(2) False]
      show ?thesis by simp
    qed
    with fh fe show ?thesis by auto
  next
    case None
    then have nh: "\<not> (\<exists>g. history_class ?r g \<and> evictable_frame ?r g)"
      by (auto simp: find_None_iff hc)
    show ?thesis
    proof (cases "find (evictable_frame ?r) (rev (cache_list ?r))")
      case n: None
      from Evict_none [OF ok None n] ev show ?thesis by simp
    next
      case (Some f')
      from Evict_cache [OF ok None Some] ev have f': "f' = f" by simp
      from find_SomeD [OF Some] f' have fc: "cache_class ?r f" and fe: "evictable_frame ?r f"
        by (simp_all add: cc)
      have "last_access T f \<le> last_access T g"
        if "cache_class ?r g" "evictable_frame ?r g" for g
      proof (cases "g = f")
        case True
        then show ?thesis by simp
      next
        case False
        from that(1) have "g \<in> set (cache_list ?r)" by (simp add: cc)
        from find_rev_last [OF Some [unfolded f'] sc this that(2) False]
        show ?thesis by simp
      qed
      with fc fe nh show ?thesis by auto
    qed
  qed
qed

text \<open>The scenario of the specification: \<open>K = 2\<close>, three frames accessed and marked
  evictable, frame 0 accessed again; the eviction picks frame 1.\<close>

definition lru_k_scenario :: "timed_replacer option" where
  "lru_k_scenario =
     timed_run (timed_new 3 2 True)
       [Call_RecordAccess 0, Call_RecordAccess 1, Call_RecordAccess 2,
        Call_SetEvictable 0 True, Call_SetEvictable 1 True, Call_SetEvictable 2 True,
        Call_RecordAccess 0]"

theorem evict_picks_oldest_of_class_witness:
  "lru_k_scenario \<noteq> None
   \<and> fst (Evict (replacer (the lru_k_scenario))) = Some 1
   \<and> evictable_frame (replacer (the lru_k_scenario)) 1
   \<and> history_class (replacer (the lru_k_scenario)) 1
   \<and> history_class (replacer (the lru_k_scenario)) 2
   \<and> evictable_frame (replacer (the lru_k_scenario)) 2
   \<and> first_access (the lru_k_scenario) 1 \<le> first_access (the lru_k_scenario) 2"
proof -
  let ?T = "the lru_k_scenario"
  have c: "to_int32 3 = 3" by (simp add: to_int32_def)
  have ne: "lru_k_scenario \<noteq> None"
    by (simp add: lru_k_scenario_def timed_new_def LRUKReplacer_new_def RecordAccess_def
        SetEvictable_def entry_at_def set_entry_def Let_def c)
  have ev1: "fst (Evict (replacer ?T)) = Some 1"
    by (simp add: lru_k_scenario_def timed_new_def LRUKReplacer_new_def RecordAccess_def
        SetEvictable_def Evict_def entry_at_def set_entry_def Let_def c)
  have g: "history_class (replacer ?T) 2 \<and> evictable_frame (replacer ?T) 2"
    by (simp add: lru_k_scenario_def timed_new_def LRUKReplacer_new_def RecordAccess_def
        SetEvictable_def entry_at_def set_entry_def Let_def c
        history_class_def evictable_frame_def)
  from ne have "lru_k_scenario = Some ?T" by simp
  from trans [OF lru_k_scenario_def [symmetric] this]
  have run: "timed_run (timed_new 3 2 True)
       [Call_RecordAccess 0, Call_RecordAccess 1, Call_RecordAccess 2,
        Call_SetEvictable 0 True, Call_SetEvictable 1 True, Call_SetEvictable 2 True,
        Call_RecordAccess 0] = Some ?T" .
  from ev1 have ev: "Evict (replacer ?T) = (Some 1, snd (Evict (replacer ?T)))"
    by (simp add: prod_eq_iff)
  have k: "2 \<le> (2::nat)" by simp
  note th = evict_picks_oldest_of_class [OF run k ev]
  from g have ex: "\<exists>g. history_class (replacer ?T) g \<and> evictable_frame (replacer ?T) g"
    by blast
  from th have e1: "evictable_frame (replacer ?T) 1" by (rule conjunct1)
  from th ex have "history_class (replacer ?T) 1 \<and>
       (\<forall>g. history_class (replacer ?T) g \<and> evictable_frame (replacer ?T) g
             \<longrightarrow> first_access ?T 1 \<le> first_access ?T g)"
    by (simp only: if_True simp_thms) blast
  with g have "history_class (replacer ?T) 1 \<and> first_access ?T 1 \<le> first_access ?T 2"
    by blast
  with ne ev1 e1 g show ?thesis by blast
qed

section \<open>Buffer pool (buffer/buffer\_pool\_manager\_instance.cpp)\<close>

text \<open>
  Page ids are \<^verbatim>\<open>int32_t\<close>: a 32-bit word, so that \<^verbatim>\<open>next_page_id_++\<close> wraps and
  \<^verbatim>\<open>INVALID_PAGE_ID\<close> is \<open>-1\<close>. The pin count is an \<^verbatim>\<open>int\<close>, taken unbounded. The
  payload of a page is of any type with a zero, which \<^verbatim>\<open>ResetMemory\<close> stores.

  The page table is the extendible hash table of the next section, used through
  \<^verbatim>\<open>Find\<close>, \<^verbatim>\<open>Insert\<close> and \<^verbatim>\<open>Remove\<close> only; the buffer pool holds it as the map
  from page ids to frame ids that the table implements. The array \<^verbatim>\<open>pages_\<close> is a
  function from frame ids; \<^verbatim>\<open>FlushAllPgsImp\<close> walks the frames below \<open>pool_size\<close>. The disk
  manager is the map from page ids to the payload last written.

  Every function runs under the pool's latch from entry to return, so it is one step
  from pool to pool. An exception of the replacer leaves through the buffer pool: the
  result is then \<open>Inl\<close> of the error.
\<close>

type_synonym page_id_t = "32 word"

definition INVALID_PAGE_ID :: page_id_t where
  "INVALID_PAGE_ID = -1"

record 'd Page =
  page_id :: page_id_t
  pin_count :: int
  is_dirty :: bool
  data :: 'd

record 'd BufferPoolManagerInstance =
  pool_size :: nat
  pages :: "frame_id_t \<Rightarrow> 'd Page"
  free_list :: "frame_id_t list"
  page_table :: "page_id_t \<Rightarrow> frame_id_t option"
  bpm_replacer :: LRUKReplacer
  next_page_id :: page_id_t
  disk :: "page_id_t \<Rightarrow> 'd"

definition empty_page :: "('d::zero) Page" where
  "empty_page = \<lparr>page_id = INVALID_PAGE_ID, pin_count = 0, is_dirty = False, data = 0\<rparr>"

text \<open>The constructor: every frame is in the free list, in order.\<close>

definition BufferPoolManagerInstance_new ::
  "nat \<Rightarrow> nat \<Rightarrow> bool \<Rightarrow> (page_id_t \<Rightarrow> 'd) \<Rightarrow> ('d::zero) BufferPoolManagerInstance" where
  "BufferPoolManagerInstance_new n replacer_k dflt dsk =
     \<lparr>pool_size = n, pages = (\<lambda>f. empty_page), free_list = map int [0..<n],
      page_table = (\<lambda>p. None), bpm_replacer = LRUKReplacer_new n replacer_k dflt,
      next_page_id = 0, disk = dsk\<rparr>"

definition WritePage ::
  "page_id_t \<Rightarrow> 'd \<Rightarrow> 'd BufferPoolManagerInstance \<Rightarrow> 'd BufferPoolManagerInstance" where
  "WritePage p d s = s\<lparr>disk := (disk s)(p := d)\<rparr>"

definition GetAvailableFrame ::
  "'d BufferPoolManagerInstance \<Rightarrow> frame_id_t option \<times> 'd BufferPoolManagerInstance" where
  "GetAvailableFrame s =
     (case free_list s of
        f # rest \<Rightarrow> (Some f, s\<lparr>free_list := rest\<rparr>)
      | [] \<Rightarrow>
          (let (victim, r) = Evict (bpm_replacer s);
               s1 = s\<lparr>bpm_replacer := r\<rparr>
           in case victim of
                None \<Rightarrow> (None, s1)
              | Some f \<Rightarrow>
                  (let s2 = (if is_dirty (pages s1 f)
                             then WritePage (page_id (pages s1 f)) (data (pages s1 f)) s1
                             else s1)
                   in (Some f,
                       s2\<lparr>page_table := (page_table s2)(page_id (pages s2 f) := None)\<rparr>))))"

text \<open>The tail shared by \<^verbatim>\<open>NewPgImp\<close> and \<^verbatim>\<open>FetchPgImp\<close>: the access is recorded
  and the frame is made non-evictable.\<close>

definition record_and_pin ::
  "frame_id_t \<Rightarrow> 'd BufferPoolManagerInstance
     \<Rightarrow> replacer_error + 'd BufferPoolManagerInstance" where
  "record_and_pin f s =
     (case RecordAccess (bpm_replacer s) f of
        Inl e \<Rightarrow> Inl e
      | Inr r1 \<Rightarrow>
          (case SetEvictable r1 f False of
             Inl e \<Rightarrow> Inl e
           | Inr r2 \<Rightarrow> Inr (s\<lparr>bpm_replacer := r2\<rparr>)))"

definition NewPgImp ::
  "('d::zero) BufferPoolManagerInstance
     \<Rightarrow> replacer_error + ((page_id_t \<times> frame_id_t) option \<times> 'd BufferPoolManagerInstance)" where
  "NewPgImp s =
     (case GetAvailableFrame s of
        (None, s1) \<Rightarrow> Inr (None, s1)
      | (Some f, s1) \<Rightarrow>
          (let p = next_page_id s1;
               s2 = s1\<lparr>next_page_id := next_page_id s1 + 1\<rparr>;
               s3 = s2\<lparr>pages := (pages s2)(f :=
                          \<lparr>page_id = p, pin_count = 1, is_dirty = False, data = 0\<rparr>)\<rparr>;
               s4 = s3\<lparr>page_table := (page_table s3)(p \<mapsto> f)\<rparr>
           in case record_and_pin f s4 of
                Inl e \<Rightarrow> Inl e
              | Inr s5 \<Rightarrow> Inr (Some (p, f), s5)))"

definition FetchPgImp ::
  "('d::zero) BufferPoolManagerInstance \<Rightarrow> page_id_t
     \<Rightarrow> replacer_error + (frame_id_t option \<times> 'd BufferPoolManagerInstance)" where
  "FetchPgImp s p =
     (case page_table s p of
        Some f \<Rightarrow>
          (let s1 = s\<lparr>pages := (pages s)(f := (pages s f)\<lparr>pin_count := pin_count (pages s f) + 1\<rparr>)\<rparr>
           in case record_and_pin f s1 of
                Inl e \<Rightarrow> Inl e
              | Inr s2 \<Rightarrow> Inr (Some f, s2))
      | None \<Rightarrow>
          (case GetAvailableFrame s of
             (None, s1) \<Rightarrow> Inr (None, s1)
           | (Some f, s1) \<Rightarrow>
               (let s2 = s1\<lparr>pages := (pages s1)(f :=
                            \<lparr>page_id = p, pin_count = 1, is_dirty = False, data = disk s1 p\<rparr>)\<rparr>;
                    s3 = s2\<lparr>page_table := (page_table s2)(p \<mapsto> f)\<rparr>
                in case record_and_pin f s3 of
                     Inl e \<Rightarrow> Inl e
                   | Inr s4 \<Rightarrow> Inr (Some f, s4))))"

definition UnpinPgImp ::
  "'d BufferPoolManagerInstance \<Rightarrow> page_id_t \<Rightarrow> bool
     \<Rightarrow> replacer_error + (bool \<times> 'd BufferPoolManagerInstance)" where
  "UnpinPgImp s p dirty =
     (case page_table s p of
        None \<Rightarrow> Inr (False, s)
      | Some f \<Rightarrow>
          (let s1 = (if dirty then s\<lparr>pages := (pages s)(f := (pages s f)\<lparr>is_dirty := True\<rparr>)\<rparr>
                     else s)
           in if pin_count (pages s1 f) \<noteq> 0 then
                (let s2 = s1\<lparr>pages := (pages s1)(f :=
                             (pages s1 f)\<lparr>pin_count := pin_count (pages s1 f) - 1\<rparr>)\<rparr>
                 in if pin_count (pages s2 f) = 0 then
                      (case SetEvictable (bpm_replacer s2) f True of
                         Inl e \<Rightarrow> Inl e
                       | Inr r \<Rightarrow> Inr (True, s2\<lparr>bpm_replacer := r\<rparr>))
                    else Inr (True, s2))
              else Inr (False, s1)))"

definition flush_frame ::
  "page_id_t \<Rightarrow> frame_id_t \<Rightarrow> 'd BufferPoolManagerInstance \<Rightarrow> 'd BufferPoolManagerInstance" where
  "flush_frame p f s =
     (let s1 = WritePage p (data (pages s f)) s
      in s1\<lparr>pages := (pages s1)(f := (pages s1 f)\<lparr>is_dirty := False\<rparr>)\<rparr>)"

definition FlushPgImp ::
  "'d BufferPoolManagerInstance \<Rightarrow> page_id_t \<Rightarrow> bool \<times> 'd BufferPoolManagerInstance" where
  "FlushPgImp s p =
     (case page_table s p of
        Some f \<Rightarrow> (True, flush_frame p f s)
      | None \<Rightarrow> (False, s))"

definition FlushAllPgsImp :: "'d BufferPoolManagerInstance \<Rightarrow> 'd BufferPoolManagerInstance" where
  "FlushAllPgsImp s =
     fold (\<lambda>i s'. case page_table s' (page_id (pages s' (int i))) of
                    Some f \<Rightarrow> flush_frame (page_id (pages s' (int i))) f s'
                  | None \<Rightarrow> s')
          [0..<pool_size s] s"

definition DeletePgImp ::
  "('d::zero) BufferPoolManagerInstance \<Rightarrow> page_id_t
     \<Rightarrow> replacer_error + (bool \<times> 'd BufferPoolManagerInstance)" where
  "DeletePgImp s p =
     (case page_table s p of
        None \<Rightarrow> Inr (True, s)
      | Some f \<Rightarrow>
          if pin_count (pages s f) > 0 then Inr (False, s)
          else
            (let s1 = s\<lparr>page_table := (page_table s)(p := None)\<rparr>
             in case Remove (bpm_replacer s1) f of
                  Inl e \<Rightarrow> Inl e
                | Inr r \<Rightarrow>
                    Inr (True,
                         s1\<lparr>bpm_replacer := r, free_list := free_list s1 @ [f],
                            pages := (pages s1)(f := empty_page)\<rparr>)))"

subsection \<open>UnpinPgImp\<close>

text \<open>A pool of one frame after \<^verbatim>\<open>NewPgImp\<close> and one \<^verbatim>\<open>UnpinPgImp\<close> of the new page:
  page 0 is resident, clean, with pin count zero.\<close>

definition unpinned_clean_pool :: "nat BufferPoolManagerInstance option" where
  "unpinned_clean_pool =
     (case NewPgImp (BufferPoolManagerInstance_new 1 2 True (\<lambda>p. 0)) of
        Inr (Some (p, f), s1) \<Rightarrow>
          (case UnpinPgImp s1 p False of Inr (True, s2) \<Rightarrow> Some s2 | _ \<Rightarrow> None)
      | _ \<Rightarrow> None)"

definition unpin_changes_state :: "'d BufferPoolManagerInstance option \<Rightarrow> page_id_t \<Rightarrow> bool" where
  "unpin_changes_state so p =
     (case so of
        None \<Rightarrow> False
      | Some s \<Rightarrow>
          (case page_table s p of
             None \<Rightarrow> False
           | Some f \<Rightarrow>
               pin_count (pages s f) = 0 \<and>
               (case UnpinPgImp s p True of
                  Inr (False, s') \<Rightarrow> is_dirty (pages s' f) \<noteq> is_dirty (pages s f)
                | _ \<Rightarrow> False)))"

definition resident_pool :: "int \<Rightarrow> nat BufferPoolManagerInstance" where
  "resident_pool c =
     \<lparr>pool_size = 1,
      pages = (\<lambda>f. \<lparr>page_id = 0, pin_count = c, is_dirty = False, data = 0\<rparr>),
      free_list = [],
      page_table = (\<lambda>p. if p = 0 then Some 0 else None),
      bpm_replacer =
        \<lparr>hist_list = [0], cache_list = [],
         entries = (\<lambda>f. if f = 0 then Some \<lparr>hit_count = 1, evictable = (c = 0), pos = InHist\<rparr>
                         else None),
         curr_size = (if c = 0 then 1 else 0), replacer_size = 1, k_param = 2,
         evictable_default = True\<rparr>,
      next_page_id = 1, disk = (\<lambda>p. 0)\<rparr>"

text \<open>
  Claim C2, as stated, fails for a resident page with pin count zero: the dirty flag is
  set before the pin count is looked at, so \<^verbatim>\<open>UnpinPgImp\<close> with \<open>dirty = true\<close> returns
  false and leaves the clean page dirty.
\<close>

theorem unpin_of_unpinned_page_sets_dirty:
  "unpin_changes_state unpinned_clean_pool 0"
proof -
  have "to_int32 (Suc 0) = 1" by (simp add: to_int32_def)
  then show ?thesis
    by (simp add: unpin_changes_state_def unpinned_clean_pool_def NewPgImp_def
        BufferPoolManagerInstance_new_def GetAvailableFrame_def record_and_pin_def
        UnpinPgImp_def LRUKReplacer_new_def RecordAccess_def SetEvictable_def
        entry_at_def set_entry_def Let_def empty_page_def)
qed

text \<open>
  Claim C2, amended: when the page is not resident the call returns false and the pool
  is unchanged. When the page is resident with pin count zero the call returns false and
  the pool is unchanged but for the page's dirty flag, which becomes its disjunction with
  \<open>dirty\<close>. When the page is resident with a pin count other than zero (and its frame id
  is one the replacer accepts) the call returns true, the dirty flag becomes its
  disjunction with \<open>dirty\<close>, the pin count drops by one, and the replacer is the result of
  \<^verbatim>\<open>SetEvictable(frame, true)\<close> exactly when the count has reached zero and is untouched
  otherwise.
\<close>

theorem UnpinPgImp_outcomes:
  "(page_table s p = None \<longrightarrow> UnpinPgImp s p dirty = Inr (False, s))
   \<and> (\<forall>f. page_table s p = Some f \<and> pin_count (pages s f) = 0 \<longrightarrow>
          UnpinPgImp s p dirty =
            Inr (False, s\<lparr>pages := (pages s)(f :=
                           (pages s f)\<lparr>is_dirty := is_dirty (pages s f) \<or> dirty\<rparr>)\<rparr>))
   \<and> (\<forall>f. page_table s p = Some f \<and> pin_count (pages s f) \<noteq> 0 \<and>
           \<not> to_int32 (replacer_size (bpm_replacer s)) < f \<longrightarrow>
          (\<exists>r. UnpinPgImp s p dirty =
                 Inr (True, s\<lparr>pages := (pages s)(f :=
                               (pages s f)\<lparr>is_dirty := is_dirty (pages s f) \<or> dirty,
                                           pin_count := pin_count (pages s f) - 1\<rparr>),
                             bpm_replacer := r\<rparr>) \<and>
               (if pin_count (pages s f) = 1
                then SetEvictable (bpm_replacer s) f True = Inr r
                else r = bpm_replacer s)))"
proof (intro conjI allI impI)
  assume "page_table s p = None"
  then show "UnpinPgImp s p dirty = Inr (False, s)" by (simp add: UnpinPgImp_def)
next
  fix f assume "page_table s p = Some f \<and> pin_count (pages s f) = 0"
  then show "UnpinPgImp s p dirty =
            Inr (False, s\<lparr>pages := (pages s)(f :=
                           (pages s f)\<lparr>is_dirty := is_dirty (pages s f) \<or> dirty\<rparr>)\<rparr>)"
    by (cases dirty) (simp_all add: UnpinPgImp_def)
next
  fix f assume a: "page_table s p = Some f \<and> pin_count (pages s f) \<noteq> 0 \<and>
           \<not> to_int32 (replacer_size (bpm_replacer s)) < f"
  let ?s' = "\<lambda>r. s\<lparr>pages := (pages s)(f :=
                               (pages s f)\<lparr>is_dirty := is_dirty (pages s f) \<or> dirty,
                                           pin_count := pin_count (pages s f) - 1\<rparr>),
                             bpm_replacer := r\<rparr>"
  show "\<exists>r. UnpinPgImp s p dirty = Inr (True, ?s' r) \<and>
               (if pin_count (pages s f) = 1
                then SetEvictable (bpm_replacer s) f True = Inr r
                else r = bpm_replacer s)"
  proof (cases "pin_count (pages s f) = 1")
    case True
    from a obtain r where r: "SetEvictable (bpm_replacer s) f True = Inr r"
      by (cases "SetEvictable (bpm_replacer s) f True")
         (auto simp: SetEvictable_def split: option.splits)
    with a True have "UnpinPgImp s p dirty = Inr (True, ?s' r)"
      by (cases dirty) (simp_all add: UnpinPgImp_def)
    with r True show ?thesis by auto
  next
    case False
    with a have "UnpinPgImp s p dirty = Inr (True, ?s' (bpm_replacer s))"
      by (cases dirty) (simp_all add: UnpinPgImp_def)
    with False show ?thesis by auto
  qed
qed


theorem UnpinPgImp_outcomes_witness:
  "UnpinPgImp (resident_pool 1) 7 True = Inr (False, resident_pool 1)
   \<and> UnpinPgImp (resident_pool 0) 0 False = Inr (False, resident_pool 0)
   \<and> map_sum id fst (UnpinPgImp (resident_pool 1) 0 True) = Inr True
   \<and> map_sum id fst (UnpinPgImp (resident_pool 2) 0 True) = Inr True"
proof -
  have c: "to_int32 (Suc 0) = 1" by (simp add: to_int32_def)
  have h1: "page_table (resident_pool 1) 7 = None" by (simp add: resident_pool_def)
  from UnpinPgImp_outcomes [of "resident_pool 1" 7 True] h1
  have w1: "UnpinPgImp (resident_pool 1) 7 True = Inr (False, resident_pool 1)" by blast
  have h2: "page_table (resident_pool 0) 0 = Some 0 \<and> pin_count (pages (resident_pool 0) 0) = 0"
    by (simp add: resident_pool_def)
  have e2: "(resident_pool 0)\<lparr>pages := (pages (resident_pool 0))(0 :=
              (pages (resident_pool 0) 0)\<lparr>is_dirty := is_dirty (pages (resident_pool 0) 0) \<or> False\<rparr>)\<rparr>
            = resident_pool 0"
    by simp
  from UnpinPgImp_outcomes [of "resident_pool 0" 0 False] h2
  have "UnpinPgImp (resident_pool 0) 0 False =
          Inr (False, (resident_pool 0)\<lparr>pages := (pages (resident_pool 0))(0 :=
              (pages (resident_pool 0) 0)\<lparr>is_dirty := is_dirty (pages (resident_pool 0) 0) \<or> False\<rparr>)\<rparr>)"
    by blast
  then have w2: "UnpinPgImp (resident_pool 0) 0 False = Inr (False, resident_pool 0)"
    by (simp only: e2)
  have h3: "page_table (resident_pool 1) 0 = Some 0 \<and> pin_count (pages (resident_pool 1) 0) \<noteq> 0 \<and>
            \<not> to_int32 (replacer_size (bpm_replacer (resident_pool 1))) < 0"
    by (simp add: resident_pool_def c)
  from UnpinPgImp_outcomes [of "resident_pool 1" 0 True] h3
  obtain r where "UnpinPgImp (resident_pool 1) 0 True =
      Inr (True, (resident_pool 1)\<lparr>pages := (pages (resident_pool 1))(0 :=
            (pages (resident_pool 1) 0)\<lparr>is_dirty := is_dirty (pages (resident_pool 1) 0) \<or> True,
               pin_count := pin_count (pages (resident_pool 1) 0) - 1\<rparr>),
          bpm_replacer := r\<rparr>)"
    by blast
  then have w3: "map_sum id fst (UnpinPgImp (resident_pool 1) 0 True) = Inr True" by simp
  have h4: "page_table (resident_pool 2) 0 = Some 0 \<and> pin_count (pages (resident_pool 2) 0) \<noteq> 0 \<and>
            \<not> to_int32 (replacer_size (bpm_replacer (resident_pool 2))) < 0"
    by (simp add: resident_pool_def c)
  from UnpinPgImp_outcomes [of "resident_pool 2" 0 True] h4
  obtain r where "UnpinPgImp (resident_pool 2) 0 True =
      Inr (True, (resident_pool 2)\<lparr>pages := (pages (resident_pool 2))(0 :=
            (pages (resident_pool 2) 0)\<lparr>is_dirty := is_dirty (pages (resident_pool 2) 0) \<or> True,
               pin_count := pin_count (pages (resident_pool 2) 0) - 1\<rparr>),
          bpm_replacer := r\<rparr>)"
    by blast
  then have w4: "map_sum id fst (UnpinPgImp (resident_pool 2) 0 True) = Inr True" by simp
  from w1 w2 w3 w4 show ?thesis by blast
qed

subsection \<open>The pin-count invariant of the buffer pool\<close>

text \<open>The replacer operations as the buffer pool uses them: on a well-formed replacer and
  an accepted frame id they do not raise and they touch the entry of that frame only.\<close>


lemma RecordAccess_entries:
  assumes ok: "lists_ok r" and v: "\<not> to_int32 (replacer_size r) < f"
  shows "\<exists>r'. RecordAccess r f = Inr r' \<and> lists_ok r' \<and> replacer_size r' = replacer_size r \<and>
              entries r' f \<noteq> None \<and> (\<forall>g. g \<noteq> f \<longrightarrow> entries r' g = entries r g)"
proof -
  have "\<exists>r'. RecordAccess r f = Inr r' \<and> replacer_size r' = replacer_size r \<and>
              entries r' f \<noteq> None \<and> (\<forall>g. g \<noteq> f \<longrightarrow> entries r' g = entries r g)"
  proof (cases "entries r f")
    case None
    from RecordAccess_new [OF ok v None] show ?thesis by simp
  next
    case (Some e)
    consider (hist) "hit_count e + 1 < k_param r" | (promote) "hit_count e + 1 = k_param r"
      | (cache) "k_param r \<le> hit_count e" by linarith
    then show ?thesis
    proof cases
      case hist
      from RecordAccess_hist [OF ok v Some hist] show ?thesis by simp
    next
      case promote
      from RecordAccess_promote [OF ok v Some promote] show ?thesis by simp
    next
      case cache
      from RecordAccess_cache [OF ok v Some cache] show ?thesis by simp
    qed
  qed
  then obtain r' where r': "RecordAccess r f = Inr r'" "replacer_size r' = replacer_size r"
      "entries r' f \<noteq> None" "\<forall>g. g \<noteq> f \<longrightarrow> entries r' g = entries r g" by blast
  from lists_ok_RecordAccess [OF ok r'(1)] r' show ?thesis by blast
qed

lemma SetEvictable_entries:
  assumes ok: "lists_ok r" and e: "entries r f = Some e" and v: "\<not> to_int32 (replacer_size r) < f"
  shows "\<exists>r'. SetEvictable r f b = Inr r' \<and> lists_ok r' \<and> replacer_size r' = replacer_size r \<and>
              entries r' = (entries r)(f \<mapsto> e\<lparr>evictable := b\<rparr>)"
proof -
  from e v obtain r' where r': "SetEvictable r f b = Inr r'"
      "replacer_size r' = replacer_size r" "entries r' = (entries r)(f \<mapsto> e\<lparr>evictable := b\<rparr>)"
    by (auto simp: SetEvictable_def set_entry_def Let_def)
  from lists_ok_SetEvictable [OF ok r'(1)] r' show ?thesis by blast
qed

lemma record_and_pin_ok:
  assumes ok: "lists_ok (bpm_replacer s)" and v: "\<not> to_int32 (replacer_size (bpm_replacer s)) < f"
  shows "\<exists>r e. record_and_pin f s = Inr (s\<lparr>bpm_replacer := r\<rparr>) \<and> lists_ok r \<and>
               replacer_size r = replacer_size (bpm_replacer s) \<and>
               entries r f = Some e \<and> \<not> evictable e \<and>
               (\<forall>g. g \<noteq> f \<longrightarrow> entries r g = entries (bpm_replacer s) g)"
proof -
  from RecordAccess_entries [OF ok v] obtain r1 e1 where
    r1: "RecordAccess (bpm_replacer s) f = Inr r1" "lists_ok r1"
        "replacer_size r1 = replacer_size (bpm_replacer s)" "entries r1 f = Some e1"
        "\<forall>g. g \<noteq> f \<longrightarrow> entries r1 g = entries (bpm_replacer s) g"
    by fastforce
  from v r1(3) have v1: "\<not> to_int32 (replacer_size r1) < f" by simp
  from SetEvictable_entries [OF r1(2) r1(4) v1, of False] obtain r2 where
    r2: "SetEvictable r1 f False = Inr r2" "lists_ok r2" "replacer_size r2 = replacer_size r1"
        "entries r2 = (entries r1)(f \<mapsto> e1\<lparr>evictable := False\<rparr>)"
    by blast
  from r1 r2 have "record_and_pin f s = Inr (s\<lparr>bpm_replacer := r2\<rparr>)"
    by (simp add: record_and_pin_def)
  moreover from r2(4) have "entries r2 f = Some (e1\<lparr>evictable := False\<rparr>)" by simp
  moreover from r1(5) r2(4) have "\<forall>g. g \<noteq> f \<longrightarrow> entries r2 g = entries (bpm_replacer s) g"
    by simp
  ultimately show ?thesis using r2(2,3) r1(3) by (intro exI [of _ r2] exI [of _ "e1\<lparr>evictable := False\<rparr>"]) simp
qed

lemma Evict_some:
  assumes ok: "lists_ok r" and ev: "Evict r = (Some f, r')"
  shows "evictable_frame r f \<and>
         r' = r\<lparr>hist_list := removeAll f (hist_list r),
                cache_list := removeAll f (cache_list r),
                entries := (entries r)(f := None),
                curr_size := curr_size r - 1\<rparr>"
proof (cases "find (evictable_frame r) (rev (hist_list r))")
  case None
  show ?thesis
  proof (cases "find (evictable_frame r) (rev (cache_list r))")
    case n: None
    from Evict_none [OF ok None n] ev show ?thesis by simp
  next
    case (Some g)
    from find_SomeD [OF Some] have g: "g \<in> set (cache_list r)" "evictable_frame r g" by simp_all
    from not_in_hist [OF ok g(1)] have "removeAll g (hist_list r) = hist_list r" by simp
    with Evict_cache [OF ok None Some] ev g(2) show ?thesis by auto
  qed
next
  case (Some g)
  from find_SomeD [OF Some] have g: "g \<in> set (hist_list r)" "evictable_frame r g" by simp_all
  from not_in_cache [OF ok g(1)] have "removeAll g (cache_list r) = cache_list r" by simp
  with Evict_hist [OF ok Some] ev g(2) show ?thesis by auto
qed

lemma Evict_nothing:
  assumes ok: "lists_ok r" and ev: "Evict r = (None, r')"
  shows "r' = r"
  using Evict_cases [OF ok] ev by auto


text \<open>The invariant: every resident frame holds the page the page table says and is
  tracked by the replacer; every tracked frame is a frame of the pool, its pin count is
  not negative and its evictable flag is set exactly when the pin count is zero; the
  free frames are distinct, in range and untracked. The replacer is well formed, which
  needs \<open>K \<ge> 2\<close>, and its capacity is the pool size, below \<open>2\<^sup>3\<^sup>1\<close>.\<close>

definition frames_tracked :: "'d BufferPoolManagerInstance \<Rightarrow> bool" where
  "frames_tracked s \<longleftrightarrow>
     (\<forall>p f. page_table s p = Some f \<longrightarrow>
        page_id (pages s f) = p \<and> entries (bpm_replacer s) f \<noteq> None)"

definition pins_match :: "'d BufferPoolManagerInstance \<Rightarrow> bool" where
  "pins_match s \<longleftrightarrow>
     (\<forall>f e. entries (bpm_replacer s) f = Some e \<longrightarrow>
        0 \<le> f \<and> f < int (pool_size s) \<and> 0 \<le> pin_count (pages s f) \<and>
        (evictable e \<longleftrightarrow> pin_count (pages s f) = 0))"

definition free_ok :: "'d BufferPoolManagerInstance \<Rightarrow> bool" where
  "free_ok s \<longleftrightarrow>
     distinct (free_list s) \<and>
     (\<forall>f\<in>set (free_list s). 0 \<le> f \<and> f < int (pool_size s) \<and>
                               entries (bpm_replacer s) f = None)"

definition pool_inv :: "'d BufferPoolManagerInstance \<Rightarrow> bool" where
  "pool_inv s \<longleftrightarrow>
     lists_ok (bpm_replacer s) \<and> replacer_size (bpm_replacer s) = pool_size s \<and>
     pool_size s < 2 ^ 31 \<and> frames_tracked s \<and> pins_match s \<and> free_ok s"

lemma pool_inv_new:
  assumes "n < 2 ^ 31" "2 \<le> k"
  shows "pool_inv (BufferPoolManagerInstance_new n k d dsk)"
  using assms lists_ok_new [of k n d]
  by (auto simp: pool_inv_def BufferPoolManagerInstance_new_def frames_tracked_def
      pins_match_def free_ok_def LRUKReplacer_new_def distinct_map inj_on_def)

lemma frame_accepted:
  assumes "pool_inv s" "f < int (pool_size s)"
  shows "\<not> to_int32 (replacer_size (bpm_replacer s)) < f"
proof -
  from assms(1) have "replacer_size (bpm_replacer s) = pool_size s" "pool_size s < 2 ^ 31"
    by (simp_all add: pool_inv_def)
  with to_int32_small [of "pool_size s"] assms(2) show ?thesis by simp
qed

text \<open>A frame ready to take a page: in range, not tracked, not free, not resident.\<close>

definition vacant :: "'d BufferPoolManagerInstance \<Rightarrow> frame_id_t \<Rightarrow> bool" where
  "vacant s f \<longleftrightarrow>
     0 \<le> f \<and> f < int (pool_size s) \<and> entries (bpm_replacer s) f = None \<and>
     f \<notin> set (free_list s)"

lemma GetAvailableFrame_some:
  assumes inv: "pool_inv s" and g: "GetAvailableFrame s = (Some f, s1)"
  shows "pool_inv s1 \<and> vacant s1 f"
proof (cases "free_list s")
  case (Cons f' rest)
  with g have f: "f' = f" and s1: "s1 = s\<lparr>free_list := rest\<rparr>"
    by (simp_all add: GetAvailableFrame_def)
  from inv Cons have "pool_inv s1" unfolding s1
    by (simp add: pool_inv_def frames_tracked_def pins_match_def free_ok_def)
  moreover from inv Cons f have "vacant s1 f" unfolding s1
    by (simp add: pool_inv_def free_ok_def vacant_def)
  ultimately show ?thesis ..
next
  case Nil
  let ?r = "bpm_replacer s"
  from inv have ok: "lists_ok ?r" by (simp add: pool_inv_def)
  obtain victim r where ev: "Evict ?r = (victim, r)" by (cases "Evict ?r")
  with g Nil have victim: "victim = Some f"
    by (auto simp: GetAvailableFrame_def Let_def split: option.splits)
  from Evict_some [OF ok ev [unfolded victim]]
  have fe: "evictable_frame ?r f"
    and r: "r = ?r\<lparr>hist_list := removeAll f (hist_list ?r),
                cache_list := removeAll f (cache_list ?r),
                entries := (entries ?r)(f := None),
                curr_size := curr_size ?r - 1\<rparr>" by simp_all
  from fe obtain e where e: "entries ?r f = Some e" "evictable e"
    by (auto simp: evictable_frame_def split: option.splits)
  let ?p = "page_id (pages s f)"
  from g Nil ev victim
  have s1: "s1 = (if is_dirty (pages s f) then WritePage ?p (data (pages s f)) (s\<lparr>bpm_replacer := r\<rparr>)
                  else s\<lparr>bpm_replacer := r\<rparr>)
                 \<lparr>page_table := (page_table s)(?p := None)\<rparr>"
    by (auto simp: GetAvailableFrame_def Let_def WritePage_def)
  have parts: "pool_size s1 = pool_size s" "pages s1 = pages s" "free_list s1 = []"
    "bpm_replacer s1 = r" "page_table s1 = (page_table s)(?p := None)"
    unfolding s1 using Nil by (simp_all add: WritePage_def)
  have "lists_ok r" unfolding r by (rule lists_ok_drop [OF ok])
  moreover have "frames_tracked s1"
    unfolding frames_tracked_def parts
  proof (intro allI impI)
    fix p g assume a: "((page_table s)(?p := None)) p = Some g"
    then have p: "p \<noteq> ?p" "page_table s p = Some g" by (auto split: if_splits)
    with inv have pg: "page_id (pages s g) = p" "entries ?r g \<noteq> None"
      by (auto simp: pool_inv_def frames_tracked_def)
    with p(1) have "g \<noteq> f" by auto
    with pg show "page_id (pages s g) = p \<and> entries r g \<noteq> None" by (simp add: r)
  qed
  moreover from inv have "pins_match s1"
    unfolding pins_match_def parts by (auto simp: r pool_inv_def pins_match_def)
  moreover have "free_ok s1" by (simp add: free_ok_def parts)
  moreover from inv have "replacer_size r = pool_size s \<and> pool_size s < 2 ^ 31"
    by (simp add: r pool_inv_def)
  ultimately have "pool_inv s1" by (simp add: pool_inv_def parts)
  moreover from inv e have "0 \<le> f \<and> f < int (pool_size s)"
    by (auto simp: pool_inv_def pins_match_def)
  then have "vacant s1 f" by (simp add: vacant_def parts r)
  ultimately show ?thesis ..
qed

lemma GetAvailableFrame_none:
  assumes inv: "pool_inv s" and g: "GetAvailableFrame s = (None, s1)"
  shows "s1 = s"
proof (cases "free_list s")
  case (Cons f' rest)
  with g show ?thesis by (simp add: GetAvailableFrame_def)
next
  case Nil
  from inv have ok: "lists_ok (bpm_replacer s)" by (simp add: pool_inv_def)
  obtain victim r where ev: "Evict (bpm_replacer s) = (victim, r)" by (cases "Evict (bpm_replacer s)")
  with g Nil have victim: "victim = None" and s1: "s1 = s\<lparr>bpm_replacer := r\<rparr>"
    by (auto simp: GetAvailableFrame_def Let_def split: option.splits)
  from Evict_nothing [OF ok ev [unfolded victim]] s1 show ?thesis by simp
qed


lemma vacant_not_resident:
  assumes "pool_inv s" "vacant s f"
  shows "page_table s p \<noteq> Some f"
proof
  assume "page_table s p = Some f"
  with assms(1) have "entries (bpm_replacer s) f \<noteq> None"
    unfolding pool_inv_def frames_tracked_def by blast
  with assms(2) show False by (simp add: vacant_def)
qed

text \<open>A page is installed in a vacant frame and pinned.\<close>

lemma install_ok:
  fixes x :: page_id_t and p :: page_id_t and d :: 'd
  assumes inv: "pool_inv s" and vac: "vacant s f"
  defines "s' \<equiv> s\<lparr>next_page_id := x,
                   pages := (pages s)(f := \<lparr>page_id = p, pin_count = 1, is_dirty = False, data = d\<rparr>),
                   page_table := (page_table s)(p \<mapsto> f)\<rparr>"
  shows "\<exists>s''. record_and_pin f s' = Inr s'' \<and> pool_inv s''"
proof -
  have parts: "pool_size s' = pool_size s" "bpm_replacer s' = bpm_replacer s"
    "free_list s' = free_list s" "page_table s' = (page_table s)(p \<mapsto> f)"
    "pages s' = (pages s)(f := \<lparr>page_id = p, pin_count = 1, is_dirty = False, data = d\<rparr>)"
    by (simp_all add: s'_def)
  from inv have ok: "lists_ok (bpm_replacer s')" by (simp add: pool_inv_def parts)
  from vac have range: "0 \<le> f" "f < int (pool_size s)" "entries (bpm_replacer s) f = None"
    "f \<notin> set (free_list s)" by (simp_all add: vacant_def)
  from frame_accepted [OF inv range(2)]
  have v: "\<not> to_int32 (replacer_size (bpm_replacer s')) < f" by (simp add: parts)
  from record_and_pin_ok [OF ok v] obtain r e where
    r: "record_and_pin f s' = Inr (s'\<lparr>bpm_replacer := r\<rparr>)" "lists_ok r"
       "replacer_size r = replacer_size (bpm_replacer s)"
       "entries r f = Some e" "\<not> evictable e"
       "\<forall>g. g \<noteq> f \<longrightarrow> entries r g = entries (bpm_replacer s) g"
    by (auto simp: parts)
  let ?s = "s'\<lparr>bpm_replacer := r\<rparr>"
  have "frames_tracked ?s"
    unfolding frames_tracked_def
  proof (intro allI impI)
    fix q g assume a: "page_table ?s q = Some g"
    show "page_id (pages ?s g) = q \<and> entries (bpm_replacer ?s) g \<noteq> None"
    proof (cases "q = p")
      case True
      with a r(4) show ?thesis by (simp add: parts)
    next
      case False
      with a have qg: "page_table s q = Some g" by (simp add: parts)
      with vacant_not_resident [OF inv vac, of q] have "g \<noteq> f" by auto
      with qg inv r(6) show ?thesis
        by (auto simp: parts pool_inv_def frames_tracked_def)
    qed
  qed
  moreover have "pins_match ?s"
    unfolding pins_match_def
  proof (intro allI impI)
    fix g e' assume a: "entries (bpm_replacer ?s) g = Some e'"
    show "0 \<le> g \<and> g < int (pool_size ?s) \<and> 0 \<le> pin_count (pages ?s g) \<and>
          (evictable e' \<longleftrightarrow> pin_count (pages ?s g) = 0)"
    proof (cases "g = f")
      case True
      with a r(4,5) range show ?thesis by (simp add: parts)
    next
      case False
      with a r(6) have "entries (bpm_replacer s) g = Some e'" by simp
      with inv False show ?thesis by (simp add: parts pool_inv_def pins_match_def)
    qed
  qed
  moreover have "free_ok ?s"
    using inv range(4) r(6) by (auto simp: free_ok_def parts pool_inv_def)
  ultimately have "pool_inv ?s"
    using inv r(2,3) by (simp add: pool_inv_def parts)
  with r(1) show ?thesis by blast
qed

lemma pool_inv_NewPgImp:
  assumes inv: "pool_inv s" and n: "NewPgImp s = Inr (res, s')"
  shows "pool_inv s'"
proof -
  obtain fo s1 where g: "GetAvailableFrame s = (fo, s1)" by (cases "GetAvailableFrame s")
  show ?thesis
  proof (cases fo)
    case None
    with g n have "s' = s1" by (simp add: NewPgImp_def)
    with GetAvailableFrame_none [OF inv g [unfolded None]] inv show ?thesis by simp
  next
    case (Some f)
    from GetAvailableFrame_some [OF inv g [unfolded Some]]
    have i1: "pool_inv s1" and vac: "vacant s1 f" by simp_all
    from install_ok [OF i1 vac, where x = "next_page_id s1 + 1" and p = "next_page_id s1" and d = 0]
    obtain s5 where "record_and_pin f (s1\<lparr>next_page_id := next_page_id s1 + 1,
        pages := (pages s1)(f := \<lparr>page_id = next_page_id s1, pin_count = 1,
                                   is_dirty = False, data = 0\<rparr>),
        page_table := (page_table s1)(next_page_id s1 \<mapsto> f)\<rparr>) = Inr s5" "pool_inv s5"
      by blast
    with g Some n show ?thesis by (simp add: NewPgImp_def Let_def)
  qed
qed

lemma pin_again_ok:
  assumes inv: "pool_inv s" and res: "page_table s p = Some f"
  defines "s' \<equiv> s\<lparr>pages := (pages s)(f := (pages s f)\<lparr>pin_count := pin_count (pages s f) + 1\<rparr>)\<rparr>"
  shows "\<exists>s''. record_and_pin f s' = Inr s'' \<and> pool_inv s''"
proof -
  have parts: "pool_size s' = pool_size s" "bpm_replacer s' = bpm_replacer s"
    "free_list s' = free_list s" "page_table s' = page_table s"
    "pages s' = (pages s)(f := (pages s f)\<lparr>pin_count := pin_count (pages s f) + 1\<rparr>)"
    by (simp_all add: s'_def)
  from inv res obtain e0 where e0: "entries (bpm_replacer s) f = Some e0"
    by (auto simp: pool_inv_def frames_tracked_def)
  with inv have range: "0 \<le> f" "f < int (pool_size s)" "0 \<le> pin_count (pages s f)"
    by (auto simp: pool_inv_def pins_match_def)
  from inv have ok: "lists_ok (bpm_replacer s')" by (simp add: pool_inv_def parts)
  from frame_accepted [OF inv range(2)]
  have v: "\<not> to_int32 (replacer_size (bpm_replacer s')) < f" by (simp add: parts)
  from record_and_pin_ok [OF ok v] obtain r e where
    r: "record_and_pin f s' = Inr (s'\<lparr>bpm_replacer := r\<rparr>)" "lists_ok r"
       "replacer_size r = replacer_size (bpm_replacer s)"
       "entries r f = Some e" "\<not> evictable e"
       "\<forall>g. g \<noteq> f \<longrightarrow> entries r g = entries (bpm_replacer s) g"
    by (auto simp: parts)
  let ?s = "s'\<lparr>bpm_replacer := r\<rparr>"
  have "frames_tracked ?s"
    unfolding frames_tracked_def
  proof (intro allI impI)
    fix q g assume a: "page_table ?s q = Some g"
    then have qg: "page_table s q = Some g" by (simp add: parts)
    with inv have "page_id (pages s g) = q" "entries (bpm_replacer s) g \<noteq> None"
      by (auto simp: pool_inv_def frames_tracked_def)
    with r(4,6) show "page_id (pages ?s g) = q \<and> entries (bpm_replacer ?s) g \<noteq> None"
      by (cases "g = f") (simp_all add: parts)
  qed
  moreover have "pins_match ?s"
    unfolding pins_match_def
  proof (intro allI impI)
    fix g e' assume a: "entries (bpm_replacer ?s) g = Some e'"
    show "0 \<le> g \<and> g < int (pool_size ?s) \<and> 0 \<le> pin_count (pages ?s g) \<and>
          (evictable e' \<longleftrightarrow> pin_count (pages ?s g) = 0)"
    proof (cases "g = f")
      case True
      with a r(4,5) range show ?thesis by (simp add: parts)
    next
      case False
      with a r(6) have "entries (bpm_replacer s) g = Some e'" by simp
      with inv False show ?thesis by (simp add: parts pool_inv_def pins_match_def)
    qed
  qed
  moreover have "free_ok ?s"
  proof -
    from inv e0 have "f \<notin> set (free_list s)" by (auto simp: pool_inv_def free_ok_def)
    with inv r(6) show ?thesis by (auto simp: free_ok_def parts pool_inv_def)
  qed
  ultimately have "pool_inv ?s"
    using inv r(2,3) by (simp add: pool_inv_def parts)
  with r(1) show ?thesis by blast
qed

lemma pool_inv_FetchPgImp:
  assumes inv: "pool_inv s" and n: "FetchPgImp s p = Inr (res, s')"
  shows "pool_inv s'"
proof (cases "page_table s p")
  case (Some f)
  from pin_again_ok [OF inv Some] obtain s2 where
    "record_and_pin f (s\<lparr>pages := (pages s)(f := (pages s f)\<lparr>pin_count := pin_count (pages s f) + 1\<rparr>)\<rparr>)
       = Inr s2" "pool_inv s2" by blast
  with Some n show ?thesis by (simp add: FetchPgImp_def Let_def)
next
  case None
  obtain fo s1 where g: "GetAvailableFrame s = (fo, s1)" by (cases "GetAvailableFrame s")
  show ?thesis
  proof (cases fo)
    case n0: None
    with g n None have "s' = s1" by (simp add: FetchPgImp_def)
    with GetAvailableFrame_none [OF inv g [unfolded n0]] inv show ?thesis by simp
  next
    case (Some f)
    from GetAvailableFrame_some [OF inv g [unfolded Some]]
    have i1: "pool_inv s1" and vac: "vacant s1 f" by simp_all
    from install_ok [OF i1 vac, where x = "next_page_id s1" and p = p and d = "disk s1 p"]
    obtain s5 where "record_and_pin f (s1\<lparr>next_page_id := next_page_id s1,
        pages := (pages s1)(f := \<lparr>page_id = p, pin_count = 1,
                                   is_dirty = False, data = disk s1 p\<rparr>),
        page_table := (page_table s1)(p \<mapsto> f)\<rparr>) = Inr s5" "pool_inv s5"
      by blast
    with g Some n None show ?thesis by (simp add: FetchPgImp_def Let_def)
  qed
qed


text \<open>Changes of a page that leave its id and pin count alone keep the invariant.\<close>

lemma pool_inv_touch:
  assumes inv: "pool_inv s"
    and same: "\<And>g. page_id (pg g) = page_id (pages s g) \<and> pin_count (pg g) = pin_count (pages s g)"
  shows "pool_inv (s\<lparr>pages := pg, disk := dk\<rparr>)"
  using inv same
  by (simp add: pool_inv_def frames_tracked_def pins_match_def free_ok_def)

lemma pool_inv_flush_frame: "pool_inv s \<Longrightarrow> pool_inv (flush_frame p f s)"
proof -
  assume inv: "pool_inv s"
  have "flush_frame p f s =
      s\<lparr>pages := (pages s)(f := (pages s f)\<lparr>is_dirty := False\<rparr>),
        disk := (disk s)(p := data (pages s f))\<rparr>"
    by (simp add: flush_frame_def WritePage_def Let_def)
  moreover have "pool_inv (s\<lparr>pages := (pages s)(f := (pages s f)\<lparr>is_dirty := False\<rparr>),
        disk := (disk s)(p := data (pages s f))\<rparr>)"
    by (rule pool_inv_touch [OF inv]) simp
  ultimately show ?thesis by simp
qed

lemma pool_inv_FlushPgImp: "pool_inv s \<Longrightarrow> pool_inv (snd (FlushPgImp s p))"
  by (simp add: FlushPgImp_def pool_inv_flush_frame split: option.splits)

lemma pool_inv_flush_fold:
  "pool_inv s \<Longrightarrow>
   pool_inv (fold (\<lambda>i s'. case page_table s' (page_id (pages s' (int i))) of
                    Some f \<Rightarrow> flush_frame (page_id (pages s' (int i))) f s'
                  | None \<Rightarrow> s') xs s)"
  by (induction xs arbitrary: s) (simp_all add: pool_inv_flush_frame split: option.splits)

lemma pool_inv_FlushAllPgsImp: "pool_inv s \<Longrightarrow> pool_inv (FlushAllPgsImp s)"
  unfolding FlushAllPgsImp_def by (rule pool_inv_flush_fold)

lemma pool_inv_UnpinPgImp:
  assumes inv: "pool_inv s" and u: "UnpinPgImp s p dirty = Inr (res, s')"
  shows "pool_inv s'"
proof (cases "page_table s p")
  case None
  with u inv show ?thesis by (simp add: UnpinPgImp_def)
next
  case (Some f)
  let ?s1 = "s\<lparr>pages := (pages s)(f := (pages s f)\<lparr>is_dirty := is_dirty (pages s f) \<or> dirty\<rparr>)\<rparr>"
  have s1: "(if dirty then s\<lparr>pages := (pages s)(f := (pages s f)\<lparr>is_dirty := True\<rparr>)\<rparr> else s) = ?s1"
    by (cases dirty) simp_all
  have "pool_inv (s\<lparr>pages := (pages s)(f := (pages s f)\<lparr>is_dirty := is_dirty (pages s f) \<or> dirty\<rparr>),
                    disk := disk s\<rparr>)"
    by (rule pool_inv_touch [OF inv]) simp
  then have i1: "pool_inv ?s1" by simp
  from inv Some obtain e where e: "entries (bpm_replacer s) f = Some e"
    by (auto simp: pool_inv_def frames_tracked_def)
  with inv have range: "0 \<le> f" "f < int (pool_size s)" "0 \<le> pin_count (pages s f)"
    "evictable e \<longleftrightarrow> pin_count (pages s f) = 0"
    by (auto simp: pool_inv_def pins_match_def)
  show ?thesis
  proof (cases "pin_count (pages s f) = 0")
    case True
    with u Some have "s' = ?s1" by (simp add: UnpinPgImp_def s1)
    with i1 show ?thesis by simp
  next
    case False
    let ?s2 = "s\<lparr>pages := (pages s)(f := (pages s f)\<lparr>is_dirty := is_dirty (pages s f) \<or> dirty,
                                  pin_count := pin_count (pages s f) - 1\<rparr>)\<rparr>"
    show ?thesis
    proof (cases "pin_count (pages s f) = 1")
      case one: True
      from inv have ok: "lists_ok (bpm_replacer s)" by (simp add: pool_inv_def)
      from SetEvictable_entries [OF ok e frame_accepted [OF inv range(2)], of True]
      obtain r where r: "SetEvictable (bpm_replacer s) f True = Inr r" "lists_ok r"
        "replacer_size r = replacer_size (bpm_replacer s)"
        "entries r = (entries (bpm_replacer s))(f \<mapsto> e\<lparr>evictable := True\<rparr>)" by blast
      with u Some one have s': "s' = ?s2\<lparr>bpm_replacer := r\<rparr>"
        by (simp add: UnpinPgImp_def s1)
      have "frames_tracked s'"
        using inv unfolding s' frames_tracked_def pool_inv_def by (auto simp: r(4))
      moreover have "pins_match s'"
        using inv one range unfolding s' pins_match_def pool_inv_def by (auto simp: r(4))
      moreover have "free_ok s'"
        using inv e unfolding s' free_ok_def pool_inv_def by (auto simp: r(4))
      ultimately show ?thesis using inv r(2,3) by (simp add: pool_inv_def s')
    next
      case more: False
      with u Some False have s': "s' = ?s2" by (simp add: UnpinPgImp_def s1)
      have "frames_tracked s'"
        using inv unfolding s' frames_tracked_def pool_inv_def by auto
      moreover have "pins_match s'"
        unfolding s' pins_match_def
      proof (intro allI impI)
        fix g e' assume a: "entries (bpm_replacer ?s2) g = Some e'"
        show "0 \<le> g \<and> g < int (pool_size ?s2) \<and> 0 \<le> pin_count (pages ?s2 g) \<and>
              (evictable e' \<longleftrightarrow> pin_count (pages ?s2 g) = 0)"
        proof (cases "g = f")
          case True
          with a e have "e' = e" by simp
          with True range False more show ?thesis by simp
        next
          case ne: False
          with a inv show ?thesis by (simp add: pool_inv_def pins_match_def)
        qed
      qed
      moreover have "free_ok s'"
        using inv unfolding s' free_ok_def pool_inv_def by auto
      ultimately show ?thesis using inv by (simp add: pool_inv_def s')
    qed
  qed
qed

lemma pool_inv_DeletePgImp:
  assumes inv: "pool_inv s" and d: "DeletePgImp s p = Inr (res, s')"
  shows "pool_inv s'"
proof (cases "page_table s p")
  case None
  with d inv show ?thesis by (simp add: DeletePgImp_def)
next
  case (Some f)
  show ?thesis
  proof (cases "pin_count (pages s f) > 0")
    case True
    with d Some inv show ?thesis by (simp add: DeletePgImp_def)
  next
    case False
    let ?r = "bpm_replacer s"
    from inv have ok: "lists_ok ?r" by (simp add: pool_inv_def)
    from inv Some obtain e where e: "entries ?r f = Some e" and pf: "page_id (pages s f) = p"
      by (auto simp: pool_inv_def frames_tracked_def)
    with inv have range: "0 \<le> f" "f < int (pool_size s)" "0 \<le> pin_count (pages s f)"
      "evictable e \<longleftrightarrow> pin_count (pages s f) = 0"
      by (auto simp: pool_inv_def pins_match_def)
    with False have ev: "evictable e" by simp
    let ?r' = "?r\<lparr>hist_list := removeAll f (hist_list ?r),
                   cache_list := removeAll f (cache_list ?r),
                   entries := (entries ?r)(f := None),
                   curr_size := curr_size ?r - 1\<rparr>"
    from Remove_tracked [OF ok frame_accepted [OF inv range(2)] e ev]
    have rm: "Remove ?r f = Inr ?r'" .
    with d Some False
    have s': "s' = s\<lparr>page_table := (page_table s)(p := None), bpm_replacer := ?r',
                     free_list := free_list s @ [f], pages := (pages s)(f := empty_page)\<rparr>"
      by (simp add: DeletePgImp_def Let_def)
    have "lists_ok ?r'" by (rule lists_ok_drop [OF ok])
    moreover have "frames_tracked s'"
      unfolding frames_tracked_def
    proof (intro allI impI)
      fix q g assume a: "page_table s' q = Some g"
      then have q: "q \<noteq> p" "page_table s q = Some g" by (auto simp: s' split: if_splits)
      with inv have qg: "page_id (pages s g) = q" "entries ?r g \<noteq> None"
        by (auto simp: pool_inv_def frames_tracked_def)
      with q(1) pf have "g \<noteq> f" by auto
      with qg show "page_id (pages s' g) = q \<and> entries (bpm_replacer s') g \<noteq> None"
        by (simp add: s')
    qed
    moreover have "pins_match s'"
      using inv unfolding s' pins_match_def pool_inv_def by auto
    moreover have "free_ok s'"
    proof -
      from inv e have "f \<notin> set (free_list s)" by (auto simp: pool_inv_def free_ok_def)
      with inv range show ?thesis unfolding s' free_ok_def pool_inv_def by auto
    qed
    ultimately show ?thesis using inv by (simp add: pool_inv_def s')
  qed
qed


text \<open>On a pool that satisfies the invariant no operation raises.\<close>

lemma NewPgImp_defined:
  assumes inv: "pool_inv s"
  shows "\<exists>res s'. NewPgImp s = Inr (res, s')"
proof -
  obtain fo s1 where g: "GetAvailableFrame s = (fo, s1)" by (cases "GetAvailableFrame s")
  show ?thesis
  proof (cases fo)
    case None
    with g show ?thesis by (simp add: NewPgImp_def)
  next
    case (Some f)
    from GetAvailableFrame_some [OF inv g [unfolded Some]]
    have i1: "pool_inv s1" and vac: "vacant s1 f" by simp_all
    from install_ok [OF i1 vac, where x = "next_page_id s1 + 1" and p = "next_page_id s1" and d = 0]
    obtain s5 where "record_and_pin f (s1\<lparr>next_page_id := next_page_id s1 + 1,
        pages := (pages s1)(f := \<lparr>page_id = next_page_id s1, pin_count = 1,
                                   is_dirty = False, data = 0\<rparr>),
        page_table := (page_table s1)(next_page_id s1 \<mapsto> f)\<rparr>) = Inr s5"
      by blast
    with g Some show ?thesis by (simp add: NewPgImp_def Let_def)
  qed
qed

lemma FetchPgImp_defined:
  assumes inv: "pool_inv s"
  shows "\<exists>res s'. FetchPgImp s p = Inr (res, s')"
proof (cases "page_table s p")
  case (Some f)
  from pin_again_ok [OF inv Some] obtain s2 where
    "record_and_pin f (s\<lparr>pages := (pages s)(f := (pages s f)\<lparr>pin_count := pin_count (pages s f) + 1\<rparr>)\<rparr>)
       = Inr s2" by blast
  with Some show ?thesis by (simp add: FetchPgImp_def Let_def)
next
  case None
  obtain fo s1 where g: "GetAvailableFrame s = (fo, s1)" by (cases "GetAvailableFrame s")
  show ?thesis
  proof (cases fo)
    case n0: None
    with g None show ?thesis by (simp add: FetchPgImp_def)
  next
    case (Some f)
    from GetAvailableFrame_some [OF inv g [unfolded Some]]
    have i1: "pool_inv s1" and vac: "vacant s1 f" by simp_all
    from install_ok [OF i1 vac, where x = "next_page_id s1" and p = p and d = "disk s1 p"]
    obtain s5 where "record_and_pin f (s1\<lparr>next_page_id := next_page_id s1,
        pages := (pages s1)(f := \<lparr>page_id = p, pin_count = 1,
                                   is_dirty = False, data = disk s1 p\<rparr>),
        page_table := (page_table s1)(p \<mapsto> f)\<rparr>) = Inr s5"
      by blast
    with g Some None show ?thesis by (simp add: FetchPgImp_def Let_def)
  qed
qed

lemma UnpinPgImp_defined:
  assumes inv: "pool_inv s"
  shows "\<exists>res s'. UnpinPgImp s p dirty = Inr (res, s')"
proof (cases "page_table s p")
  case None
  then have "UnpinPgImp s p dirty = Inr (False, s)" by (simp add: UnpinPgImp_def)
  then show ?thesis by blast
next
  case (Some f)
  from inv Some obtain e where e: "entries (bpm_replacer s) f = Some e"
    by (auto simp: pool_inv_def frames_tracked_def)
  with inv have "f < int (pool_size s)" by (auto simp: pool_inv_def pins_match_def)
  from frame_accepted [OF inv this] e
  obtain r where "SetEvictable (bpm_replacer s) f True = Inr r"
    by (cases "SetEvictable (bpm_replacer s) f True") (auto simp: SetEvictable_def)
  with Some show ?thesis
    by (cases dirty) (auto simp: UnpinPgImp_def Let_def)
qed

lemma DeletePgImp_defined:
  assumes inv: "pool_inv s"
  shows "\<exists>res s'. DeletePgImp s p = Inr (res, s')"
proof (cases "page_table s p")
  case None
  then have "DeletePgImp s p = Inr (True, s)" by (simp add: DeletePgImp_def)
  then show ?thesis by blast
next
  case (Some f)
  show ?thesis
  proof (cases "pin_count (pages s f) > 0")
    case True
    with Some have "DeletePgImp s p = Inr (False, s)" by (simp add: DeletePgImp_def)
    then show ?thesis by blast
  next
    case False
    from inv have ok: "lists_ok (bpm_replacer s)" by (simp add: pool_inv_def)
    from inv Some obtain e where e: "entries (bpm_replacer s) f = Some e"
      by (auto simp: pool_inv_def frames_tracked_def)
    with inv have range: "f < int (pool_size s)" "0 \<le> pin_count (pages s f)"
      "evictable e \<longleftrightarrow> pin_count (pages s f) = 0"
      by (auto simp: pool_inv_def pins_match_def)
    with False have ev: "evictable e" by simp
    from Remove_tracked [OF ok frame_accepted [OF inv range(1)] e ev] Some False
    show ?thesis by (auto simp: DeletePgImp_def Let_def)
  qed
qed

subsection \<open>Runs of the buffer pool\<close>

datatype pool_call =
    Call_NewPage
  | Call_FetchPage page_id_t
  | Call_UnpinPage page_id_t bool
  | Call_FlushPage page_id_t
  | Call_FlushAllPages
  | Call_DeletePage page_id_t

definition pool_call ::
  "pool_call \<Rightarrow> ('d::zero) BufferPoolManagerInstance
     \<Rightarrow> replacer_error + 'd BufferPoolManagerInstance" where
  "pool_call c s =
     (case c of
        Call_NewPage \<Rightarrow> map_sum id snd (NewPgImp s)
      | Call_FetchPage p \<Rightarrow> map_sum id snd (FetchPgImp s p)
      | Call_UnpinPage p dirty \<Rightarrow> map_sum id snd (UnpinPgImp s p dirty)
      | Call_FlushPage p \<Rightarrow> Inr (snd (FlushPgImp s p))
      | Call_FlushAllPages \<Rightarrow> Inr (FlushAllPgsImp s)
      | Call_DeletePage p \<Rightarrow> map_sum id snd (DeletePgImp s p))"

fun pool_run ::
  "pool_call list \<Rightarrow> ('d::zero) BufferPoolManagerInstance
     \<Rightarrow> replacer_error + 'd BufferPoolManagerInstance" where
  "pool_run [] s = Inr s"
| "pool_run (c # cs) s =
     (case pool_call c s of Inl e \<Rightarrow> Inl e | Inr s' \<Rightarrow> pool_run cs s')"

definition evictable_iff_unpinned :: "'d BufferPoolManagerInstance \<Rightarrow> bool" where
  "evictable_iff_unpinned s \<longleftrightarrow>
     (\<forall>p f. page_table s p = Some f \<longrightarrow>
        (evictable_frame (bpm_replacer s) f \<longleftrightarrow> pin_count (pages s f) = 0))"

definition victim_unpinned :: "'d BufferPoolManagerInstance \<Rightarrow> bool" where
  "victim_unpinned s \<longleftrightarrow>
     (\<forall>f r. Evict (bpm_replacer s) = (Some f, r) \<longrightarrow> pin_count (pages s f) = 0)"

lemma pool_call_inv:
  assumes inv: "pool_inv s"
  shows "\<exists>s'. pool_call c s = Inr s' \<and> pool_inv s'"
proof (cases c)
  case Call_NewPage
  from NewPgImp_defined [OF inv] obtain res s' where r: "NewPgImp s = Inr (res, s')" by blast
  with pool_inv_NewPgImp [OF inv r] Call_NewPage show ?thesis by (simp add: pool_call_def)
next
  case (Call_FetchPage p)
  from FetchPgImp_defined [OF inv] obtain res s' where r: "FetchPgImp s p = Inr (res, s')" by blast
  with pool_inv_FetchPgImp [OF inv r] Call_FetchPage show ?thesis by (simp add: pool_call_def)
next
  case (Call_UnpinPage p dirty)
  from UnpinPgImp_defined [OF inv] obtain res s' where r: "UnpinPgImp s p dirty = Inr (res, s')"
    by blast
  with pool_inv_UnpinPgImp [OF inv r] Call_UnpinPage show ?thesis by (simp add: pool_call_def)
next
  case (Call_FlushPage p)
  with pool_inv_FlushPgImp [OF inv] show ?thesis by (simp add: pool_call_def)
next
  case Call_FlushAllPages
  with pool_inv_FlushAllPgsImp [OF inv] show ?thesis by (simp add: pool_call_def)
next
  case (Call_DeletePage p)
  from DeletePgImp_defined [OF inv] obtain res s' where r: "DeletePgImp s p = Inr (res, s')" by blast
  with pool_inv_DeletePgImp [OF inv r] Call_DeletePage show ?thesis by (simp add: pool_call_def)
qed

lemma pool_run_inv:
  "pool_inv s \<Longrightarrow> \<exists>s'. pool_run cs s = Inr s' \<and> pool_inv s'"
proof (induction cs arbitrary: s)
  case Nil
  then show ?case by simp
next
  case (Cons c cs)
  from pool_call_inv [OF Cons.prems] obtain s1 where s1: "pool_call c s = Inr s1" "pool_inv s1"
    by blast
  from Cons.IH [OF s1(2)] s1(1) show ?case by simp
qed

text \<open>A pool of two frames: two new pages, page 0 unpinned, page 1 fetched again.\<close>

definition two_page_run :: "pool_call list" where
  "two_page_run = [Call_NewPage, Call_NewPage, Call_UnpinPage 0 True, Call_FetchPage 1]"

definition two_page_pool :: "replacer_error + nat BufferPoolManagerInstance" where
  "two_page_pool = pool_run two_page_run (BufferPoolManagerInstance_new 2 2 True (\<lambda>p. 0))"

lemma two_page_pool_facts:
  "\<exists>s. two_page_pool = Inr s \<and> page_table s 0 = Some 0 \<and> page_table s 1 = Some 1 \<and>
       pin_count (pages s 0) = 0 \<and> pin_count (pages s 1) = 2 \<and>
       fst (Evict (bpm_replacer s)) = Some 0"
proof -
  have c: "to_int32 2 = 2" "to_int32 (Suc (Suc 0)) = 2" by (simp_all add: to_int32_def)
  show ?thesis
    by (simp add: two_page_pool_def two_page_run_def pool_call_def NewPgImp_def FetchPgImp_def
        BufferPoolManagerInstance_new_def GetAvailableFrame_def record_and_pin_def
        UnpinPgImp_def LRUKReplacer_new_def RecordAccess_def SetEvictable_def
        entry_at_def set_entry_def Let_def empty_page_def c Evict_def
        evictable_frame_def upt_rec)
qed


subsection \<open>The buffer pool for every K\<close>

text \<open>The lists of the replacer against the positions stored in the entries: the
  lists are distinct, a frame is in a list exactly when its entry says so, and every
  entry has been accessed and has a position. This holds for every \<open>K\<close>.\<close>

definition pos_ok :: "LRUKReplacer \<Rightarrow> bool" where
  "pos_ok r \<longleftrightarrow>
     distinct (hist_list r) \<and> distinct (cache_list r) \<and>
     (\<forall>f. f \<in> set (hist_list r) \<longleftrightarrow> (\<exists>e. entries r f = Some e \<and> pos e = InHist)) \<and>
     (\<forall>f. f \<in> set (cache_list r) \<longleftrightarrow> (\<exists>e. entries r f = Some e \<and> pos e = InCache)) \<and>
     (\<forall>f e. entries r f = Some e \<longrightarrow> 1 \<le> hit_count e \<and> pos e \<noteq> NoPos)"

lemma pos_ok_new: "pos_ok (LRUKReplacer_new n k d)"
  by (simp add: pos_ok_def LRUKReplacer_new_def)

lemma pos_ok_parts:
  assumes "pos_ok r"
  shows "distinct (hist_list r)" and "distinct (cache_list r)"
    and "f \<in> set (hist_list r) \<longleftrightarrow> (\<exists>e. entries r f = Some e \<and> pos e = InHist)"
    and "f \<in> set (cache_list r) \<longleftrightarrow> (\<exists>e. entries r f = Some e \<and> pos e = InCache)"
    and "entries r f = Some e \<Longrightarrow> 1 \<le> hit_count e \<and> pos e \<noteq> NoPos"
  using assms unfolding pos_ok_def by blast+

lemma pos_ok_drop:
  assumes ok: "pos_ok r"
  shows "pos_ok (r\<lparr>hist_list := removeAll f (hist_list r),
                   cache_list := removeAll f (cache_list r),
                   entries := (entries r)(f := None), curr_size := c\<rparr>)"
  using ok unfolding pos_ok_def by (simp add: distinct_removeAll)

lemma pos_ok_entry:
  assumes ok: "pos_ok r" and e: "entries r f = Some e"
    and e': "pos e' = pos e" "1 \<le> hit_count e'"
  shows "pos_ok (r\<lparr>entries := (entries r)(f \<mapsto> e'), curr_size := c\<rparr>)"
  using ok e e' unfolding pos_ok_def by auto

text \<open>\<^verbatim>\<open>RecordAccess\<close> of an accepted frame: the access is recorded, or the call erases
  through an iterator of the other list.\<close>

lemma RecordAccess_any:
  assumes ok: "pos_ok r" and v: "\<not> to_int32 (replacer_size r) < f"
  shows "RecordAccess r f = Inl UndefinedBehaviour \<or>
         (\<exists>r'. RecordAccess r f = Inr r' \<and> pos_ok r' \<and> replacer_size r' = replacer_size r \<and>
               entries r' f \<noteq> None \<and> (\<forall>g. g \<noteq> f \<longrightarrow> entries r' g = entries r g))"
proof (cases "entries r f")
  case None
  with pos_ok_parts(3,4) [OF ok, of f]
  have fresh: "f \<notin> set (hist_list r)" "f \<notin> set (cache_list r)" by simp_all
  let ?r = "r\<lparr>entries := (entries r)(f \<mapsto> \<lparr>hit_count = 1, evictable = evictable_default r,
                                               pos = InHist\<rparr>),
            curr_size := curr_size r + 1, hist_list := f # hist_list r\<rparr>"
  from v None have "RecordAccess r f = Inr ?r"
    by (simp add: RecordAccess_def entry_at_def set_entry_def Let_def)
  moreover from ok fresh None have "pos_ok ?r" unfolding pos_ok_def by auto
  ultimately show ?thesis by simp
next
  case (Some e0)
  from pos_ok_parts(5) [OF ok Some] have h: "1 \<le> hit_count e0" "pos e0 \<noteq> NoPos" by simp_all
  let ?e = "e0\<lparr>hit_count := hit_count e0 + 1\<rparr>"
  let ?r1 = "r\<lparr>entries := (entries r)(f \<mapsto> ?e)\<rparr>"
  have ea: "entry_at r f = (e0, r)" using Some by (simp add: entry_at_def)
  consider (promote) "hit_count e0 + 1 = k_param r"
    | (cache) "hit_count e0 + 1 > k_param r"
    | (hist) "hit_count e0 + 1 < k_param r" by linarith
  then show ?thesis
  proof cases
    case hist
    with v h have "RecordAccess r f = Inr ?r1"
      by (simp add: RecordAccess_def ea set_entry_def Let_def)
    moreover have "pos_ok ?r1"
      using pos_ok_entry [OF ok Some, of ?e "curr_size r"] by simp
    ultimately show ?thesis by simp
  next
    case promote
    show ?thesis
    proof (cases "pos e0 = InHist")
      case False
      with v h promote have "RecordAccess r f = Inl UndefinedBehaviour"
        by (simp add: RecordAccess_def ea set_entry_def Let_def)
      then show ?thesis ..
    next
      case True
      with pos_ok_parts(3,4) [OF ok, of f] Some
      have mem: "f \<in> set (hist_list r)" "f \<notin> set (cache_list r)" by simp_all
      let ?r = "r\<lparr>entries := (entries r)(f \<mapsto> ?e\<lparr>pos := InCache\<rparr>),
                  hist_list := remove1 f (hist_list r), cache_list := f # cache_list r\<rparr>"
      from v h promote True mem have "RecordAccess r f = Inr ?r"
        by (simp add: RecordAccess_def ea set_entry_def Let_def)
      moreover from ok mem Some have "pos_ok ?r" unfolding pos_ok_def by auto
      ultimately show ?thesis by simp
    qed
  next
    case cache
    show ?thesis
    proof (cases "pos e0 = InCache")
      case False
      with v h cache have "RecordAccess r f = Inl UndefinedBehaviour"
        by (simp add: RecordAccess_def ea set_entry_def Let_def)
      then show ?thesis ..
    next
      case True
      with pos_ok_parts(3,4) [OF ok, of f] Some
      have mem: "f \<in> set (cache_list r)" "f \<notin> set (hist_list r)" by simp_all
      let ?r = "r\<lparr>entries := (entries r)(f \<mapsto> ?e\<lparr>pos := InCache\<rparr>),
                  cache_list := f # remove1 f (cache_list r)\<rparr>"
      from v h cache True mem have "RecordAccess r f = Inr ?r"
        by (simp add: RecordAccess_def ea set_entry_def Let_def)
      moreover from ok mem Some True have "pos_ok ?r" unfolding pos_ok_def by auto
      ultimately show ?thesis by simp
    qed
  qed
qed

lemma SetEvictable_any:
  assumes ok: "pos_ok r" and e: "entries r f = Some e" and v: "\<not> to_int32 (replacer_size r) < f"
  shows "\<exists>r'. SetEvictable r f b = Inr r' \<and> pos_ok r' \<and> replacer_size r' = replacer_size r \<and>
              entries r' = (entries r)(f \<mapsto> e\<lparr>evictable := b\<rparr>)"
proof -
  let ?c = "if \<not> evictable e \<and> b then curr_size r + 1
            else if evictable e \<and> \<not> b then curr_size r - 1 else curr_size r"
  let ?r = "r\<lparr>entries := (entries r)(f \<mapsto> e\<lparr>evictable := b\<rparr>), curr_size := ?c\<rparr>"
  from e v have "SetEvictable r f b = Inr ?r"
    by (simp add: SetEvictable_def set_entry_def Let_def)
  moreover have "pos_ok ?r"
    using pos_ok_entry [OF ok e, of "e\<lparr>evictable := b\<rparr>" ?c] pos_ok_parts(5) [OF ok e] by simp
  ultimately show ?thesis by simp
qed


lemma pos_ok_tracked:
  assumes "pos_ok r"
  shows "\<forall>g\<in>set (rev (hist_list r)). entries r g \<noteq> None"
    and "\<forall>g\<in>set (rev (cache_list r)). entries r g \<noteq> None"
  using assms unfolding pos_ok_def by auto

lemma pos_ok_one_list:
  assumes "pos_ok r"
  shows "f \<in> set (hist_list r) \<Longrightarrow> removeAll f (cache_list r) = cache_list r"
    and "f \<in> set (cache_list r) \<Longrightarrow> removeAll f (hist_list r) = hist_list r"
proof -
  assume "f \<in> set (hist_list r)"
  with pos_ok_parts(3,4) [OF assms, of f] have "f \<notin> set (cache_list r)" by auto
  then show "removeAll f (cache_list r) = cache_list r" by simp
next
  assume "f \<in> set (cache_list r)"
  with pos_ok_parts(3,4) [OF assms, of f] have "f \<notin> set (hist_list r)" by auto
  then show "removeAll f (hist_list r) = hist_list r" by simp
qed

text \<open>\<^verbatim>\<open>Evict\<close>: nothing is found and the replacer is as before, or an evictable tracked
  frame is dropped from its list and from the entries.\<close>

lemma Evict_any:
  assumes ok: "pos_ok r"
  shows "Evict r = (None, r) \<or>
         (\<exists>f. evictable_frame r f \<and>
              Evict r = (Some f, r\<lparr>hist_list := removeAll f (hist_list r),
                                    cache_list := removeAll f (cache_list r),
                                    entries := (entries r)(f := None),
                                    curr_size := curr_size r - 1\<rparr>))"
proof -
  note d = pos_ok_parts(1,2) [OF ok]
  note tr = pos_ok_tracked [OF ok]
  have same: "r\<lparr>hist_list := hist_list r\<rparr> = r" "r\<lparr>cache_list := cache_list r\<rparr> = r" by simp_all
  show ?thesis
  proof (cases "find (evictable_frame r) (rev (hist_list r))")
    case (Some f)
    from find_SomeD [OF Some] have f: "f \<in> set (hist_list r)" "evictable_frame r f" by simp_all
    from evict_scan_tracked [OF tr(1)] Some
    have "evict_scan r (rev (hist_list r)) = (Some f, remove1 f (rev (hist_list r)), r)" by simp
    then have "Evict r = (Some f, r\<lparr>hist_list := removeAll f (hist_list r),
                                    entries := (entries r)(f := None),
                                    curr_size := curr_size r - 1\<rparr>)"
      by (simp add: Evict_def rev_remove1_rev [OF d(1)])
    with f(2) pos_ok_one_list(1) [OF ok f(1)] show ?thesis by auto
  next
    case None
    from evict_scan_tracked [OF tr(1)] None
    have s1: "evict_scan r (rev (hist_list r)) = (None, rev (hist_list r), r)" by simp
    show ?thesis
    proof (cases "find (evictable_frame r) (rev (cache_list r))")
      case n: None
      from evict_scan_tracked [OF tr(2)] n
      have "evict_scan r (rev (cache_list r)) = (None, rev (cache_list r), r)" by simp
      with s1 have "Evict r = (None, r)" by (simp add: Evict_def same)
      then show ?thesis ..
    next
      case (Some f)
      from find_SomeD [OF Some] have f: "f \<in> set (cache_list r)" "evictable_frame r f"
        by simp_all
      from evict_scan_tracked [OF tr(2)] Some
      have "evict_scan r (rev (cache_list r)) = (Some f, remove1 f (rev (cache_list r)), r)"
        by simp
      with s1 have "Evict r = (Some f, r\<lparr>cache_list := removeAll f (cache_list r),
                                    entries := (entries r)(f := None),
                                    curr_size := curr_size r - 1\<rparr>)"
        by (simp add: Evict_def same rev_remove1_rev [OF d(2)])
      with f(2) pos_ok_one_list(2) [OF ok f(1)] show ?thesis by auto
    qed
  qed
qed

text \<open>\<^verbatim>\<open>Remove\<close> of an accepted, tracked, evictable frame: the frame is dropped, or the call
  erases through an iterator of the other list.\<close>

lemma Remove_any:
  assumes ok: "pos_ok r" and v: "\<not> to_int32 (replacer_size r) < f"
    and e: "entries r f = Some e" and ev: "evictable e"
  shows "Remove r f = Inl UndefinedBehaviour \<or>
         Remove r f = Inr (r\<lparr>hist_list := removeAll f (hist_list r),
                             cache_list := removeAll f (cache_list r),
                             entries := (entries r)(f := None),
                             curr_size := curr_size r - 1\<rparr>)"
proof (cases "hit_count e < k_param r")
  case True
  show ?thesis
  proof (cases "pos e = InHist")
    case False
    with v e ev True have "Remove r f = Inl UndefinedBehaviour" by (simp add: Remove_def)
    then show ?thesis ..
  next
    case h: True
    with pos_ok_parts(3) [OF ok, of f] e have mem: "f \<in> set (hist_list r)" by simp
    from pos_ok_parts(1) [OF ok] have "remove1 f (hist_list r) = removeAll f (hist_list r)"
      by (simp add: distinct_remove1_removeAll)
    with v e ev True h mem pos_ok_one_list(1) [OF ok mem] show ?thesis
      by (simp add: Remove_def)
  qed
next
  case False
  show ?thesis
  proof (cases "pos e = InCache")
    case c: False
    with v e ev False have "Remove r f = Inl UndefinedBehaviour" by (simp add: Remove_def)
    then show ?thesis ..
  next
    case c: True
    with pos_ok_parts(4) [OF ok, of f] e have mem: "f \<in> set (cache_list r)" by simp
    from pos_ok_parts(2) [OF ok] have "remove1 f (cache_list r) = removeAll f (cache_list r)"
      by (simp add: distinct_remove1_removeAll)
    with v e ev False c mem pos_ok_one_list(2) [OF ok mem] show ?thesis
      by (simp add: Remove_def)
  qed
qed

text \<open>The tail of \<^verbatim>\<open>NewPgImp\<close> and \<^verbatim>\<open>FetchPgImp\<close>.\<close>

lemma record_and_pin_any:
  assumes ok: "pos_ok (bpm_replacer s)" and v: "\<not> to_int32 (replacer_size (bpm_replacer s)) < f"
  shows "record_and_pin f s = Inl UndefinedBehaviour \<or>
         (\<exists>r e. record_and_pin f s = Inr (s\<lparr>bpm_replacer := r\<rparr>) \<and> pos_ok r \<and>
               replacer_size r = replacer_size (bpm_replacer s) \<and>
               entries r f = Some e \<and> \<not> evictable e \<and>
               (\<forall>g. g \<noteq> f \<longrightarrow> entries r g = entries (bpm_replacer s) g))"
proof (cases "RecordAccess (bpm_replacer s) f = Inl UndefinedBehaviour")
  case True
  then have "record_and_pin f s = Inl UndefinedBehaviour" by (simp add: record_and_pin_def)
  then show ?thesis ..
next
  case False
  with RecordAccess_any [OF ok v] obtain r1 e1 where
    r1: "RecordAccess (bpm_replacer s) f = Inr r1" "pos_ok r1"
        "replacer_size r1 = replacer_size (bpm_replacer s)" "entries r1 f = Some e1"
        "\<forall>g. g \<noteq> f \<longrightarrow> entries r1 g = entries (bpm_replacer s) g"
    by fastforce
  from v r1(3) have v1: "\<not> to_int32 (replacer_size r1) < f" by simp
  from SetEvictable_any [OF r1(2) r1(4) v1, of False] obtain r2 where
    r2: "SetEvictable r1 f False = Inr r2" "pos_ok r2" "replacer_size r2 = replacer_size r1"
        "entries r2 = (entries r1)(f \<mapsto> e1\<lparr>evictable := False\<rparr>)"
    by blast
  from r1 r2 have "record_and_pin f s = Inr (s\<lparr>bpm_replacer := r2\<rparr>)"
    by (simp add: record_and_pin_def)
  moreover from r2(4) have "entries r2 f = Some (e1\<lparr>evictable := False\<rparr>)" by simp
  moreover from r1(5) r2(4) have "\<forall>g. g \<noteq> f \<longrightarrow> entries r2 g = entries (bpm_replacer s) g"
    by simp
  ultimately have "\<exists>r e. record_and_pin f s = Inr (s\<lparr>bpm_replacer := r\<rparr>) \<and> pos_ok r \<and>
               replacer_size r = replacer_size (bpm_replacer s) \<and>
               entries r f = Some e \<and> \<not> evictable e \<and>
               (\<forall>g. g \<noteq> f \<longrightarrow> entries r g = entries (bpm_replacer s) g)"
    using r2(2,3) r1(3)
    by (intro exI [of _ r2] exI [of _ "e1\<lparr>evictable := False\<rparr>"]) simp
  then show ?thesis ..
qed


subsection \<open>The invariant of the pool for every K\<close>

definition pool_any :: "'d BufferPoolManagerInstance \<Rightarrow> bool" where
  "pool_any s \<longleftrightarrow>
     pos_ok (bpm_replacer s) \<and> replacer_size (bpm_replacer s) = pool_size s \<and>
     pool_size s < 2 ^ 31 \<and> frames_tracked s \<and> pins_match s \<and> free_ok s"

lemma pool_any_new:
  assumes "n < 2 ^ 31"
  shows "pool_any (BufferPoolManagerInstance_new n k d dsk)"
  using assms pos_ok_new [of n k d]
  by (auto simp: pool_any_def BufferPoolManagerInstance_new_def frames_tracked_def
      pins_match_def free_ok_def LRUKReplacer_new_def distinct_map inj_on_def)

lemma frame_accepted_any:
  assumes "pool_any s" "f < int (pool_size s)"
  shows "\<not> to_int32 (replacer_size (bpm_replacer s)) < f"
proof -
  from assms(1) have "replacer_size (bpm_replacer s) = pool_size s" "pool_size s < 2 ^ 31"
    by (simp_all add: pool_any_def)
  with to_int32_small [of "pool_size s"] assms(2) show ?thesis by simp
qed

lemma GetAvailableFrame_some_any:
  assumes inv: "pool_any s" and g: "GetAvailableFrame s = (Some f, s1)"
  shows "pool_any s1 \<and> vacant s1 f"
proof (cases "free_list s")
  case (Cons f' rest)
  with g have f: "f' = f" and s1: "s1 = s\<lparr>free_list := rest\<rparr>"
    by (simp_all add: GetAvailableFrame_def)
  from inv Cons have "pool_any s1" unfolding s1
    by (simp add: pool_any_def frames_tracked_def pins_match_def free_ok_def)
  moreover from inv Cons f have "vacant s1 f" unfolding s1
    by (simp add: pool_any_def free_ok_def vacant_def)
  ultimately show ?thesis ..
next
  case Nil
  let ?r = "bpm_replacer s"
  from inv have ok: "pos_ok ?r" by (simp add: pool_any_def)
  obtain victim r where ev: "Evict ?r = (victim, r)" by (cases "Evict ?r")
  with g Nil have victim: "victim = Some f"
    by (auto simp: GetAvailableFrame_def Let_def split: option.splits)
  from Evict_any [OF ok] ev victim
  have fe: "evictable_frame ?r f"
    and r: "r = ?r\<lparr>hist_list := removeAll f (hist_list ?r),
                cache_list := removeAll f (cache_list ?r),
                entries := (entries ?r)(f := None),
                curr_size := curr_size ?r - 1\<rparr>" by auto
  from fe obtain e where e: "entries ?r f = Some e" "evictable e"
    by (auto simp: evictable_frame_def split: option.splits)
  let ?p = "page_id (pages s f)"
  from g Nil ev victim
  have s1: "s1 = (if is_dirty (pages s f) then WritePage ?p (data (pages s f)) (s\<lparr>bpm_replacer := r\<rparr>)
                  else s\<lparr>bpm_replacer := r\<rparr>)
                 \<lparr>page_table := (page_table s)(?p := None)\<rparr>"
    by (auto simp: GetAvailableFrame_def Let_def WritePage_def)
  have parts: "pool_size s1 = pool_size s" "pages s1 = pages s" "free_list s1 = []"
    "bpm_replacer s1 = r" "page_table s1 = (page_table s)(?p := None)"
    unfolding s1 using Nil by (simp_all add: WritePage_def)
  have "pos_ok r" unfolding r by (rule pos_ok_drop [OF ok])
  moreover have "frames_tracked s1"
    unfolding frames_tracked_def parts
  proof (intro allI impI)
    fix p g assume a: "((page_table s)(?p := None)) p = Some g"
    then have p: "p \<noteq> ?p" "page_table s p = Some g" by (auto split: if_splits)
    with inv have pg: "page_id (pages s g) = p" "entries ?r g \<noteq> None"
      by (auto simp: pool_any_def frames_tracked_def)
    with p(1) have "g \<noteq> f" by auto
    with pg show "page_id (pages s g) = p \<and> entries r g \<noteq> None" by (simp add: r)
  qed
  moreover from inv have "pins_match s1"
    unfolding pins_match_def parts by (auto simp: r pool_any_def pins_match_def)
  moreover have "free_ok s1" by (simp add: free_ok_def parts)
  moreover from inv have "replacer_size r = pool_size s \<and> pool_size s < 2 ^ 31"
    by (simp add: r pool_any_def)
  ultimately have "pool_any s1" by (simp add: pool_any_def parts)
  moreover from inv e have "0 \<le> f \<and> f < int (pool_size s)"
    by (auto simp: pool_any_def pins_match_def)
  then have "vacant s1 f" by (simp add: vacant_def parts r)
  ultimately show ?thesis ..
qed

lemma GetAvailableFrame_none_any:
  assumes inv: "pool_any s" and g: "GetAvailableFrame s = (None, s1)"
  shows "s1 = s"
proof (cases "free_list s")
  case (Cons f' rest)
  with g show ?thesis by (simp add: GetAvailableFrame_def)
next
  case Nil
  from inv have ok: "pos_ok (bpm_replacer s)" by (simp add: pool_any_def)
  obtain victim r where ev: "Evict (bpm_replacer s) = (victim, r)" by (cases "Evict (bpm_replacer s)")
  with g Nil have victim: "victim = None" and s1: "s1 = s\<lparr>bpm_replacer := r\<rparr>"
    by (auto simp: GetAvailableFrame_def Let_def split: option.splits)
  from Evict_any [OF ok] ev victim have "r = bpm_replacer s" by auto
  with s1 show ?thesis by simp
qed


lemma vacant_not_resident_any:
  assumes "pool_any s" "vacant s f"
  shows "page_table s p \<noteq> Some f"
proof
  assume "page_table s p = Some f"
  with assms(1) have "entries (bpm_replacer s) f \<noteq> None"
    unfolding pool_any_def frames_tracked_def by blast
  with assms(2) show False by (simp add: vacant_def)
qed

text \<open>A page is installed in a vacant frame and pinned.\<close>

lemma install_any:
  fixes x :: page_id_t and p :: page_id_t and d :: 'd
  assumes inv: "pool_any s" and vac: "vacant s f"
  defines "s' \<equiv> s\<lparr>next_page_id := x,
                   pages := (pages s)(f := \<lparr>page_id = p, pin_count = 1, is_dirty = False, data = d\<rparr>),
                   page_table := (page_table s)(p \<mapsto> f)\<rparr>"
  assumes rp: "record_and_pin f s' = Inr s''"
  shows "pool_any s''"
proof -
  have parts: "pool_size s' = pool_size s" "bpm_replacer s' = bpm_replacer s"
    "free_list s' = free_list s" "page_table s' = (page_table s)(p \<mapsto> f)"
    "pages s' = (pages s)(f := \<lparr>page_id = p, pin_count = 1, is_dirty = False, data = d\<rparr>)"
    by (simp_all add: s'_def)
  from inv have ok: "pos_ok (bpm_replacer s')" by (simp add: pool_any_def parts)
  from vac have range: "0 \<le> f" "f < int (pool_size s)" "entries (bpm_replacer s) f = None"
    "f \<notin> set (free_list s)" by (simp_all add: vacant_def)
  from frame_accepted_any [OF inv range(2)]
  have v: "\<not> to_int32 (replacer_size (bpm_replacer s')) < f" by (simp add: parts)
  from record_and_pin_any [OF ok v] rp obtain r e where
    r: "record_and_pin f s' = Inr (s'\<lparr>bpm_replacer := r\<rparr>)" "pos_ok r"
       "replacer_size r = replacer_size (bpm_replacer s)"
       "entries r f = Some e" "\<not> evictable e"
       "\<forall>g. g \<noteq> f \<longrightarrow> entries r g = entries (bpm_replacer s) g"
    by (auto simp: parts)
  let ?s = "s'\<lparr>bpm_replacer := r\<rparr>"
  have "frames_tracked ?s"
    unfolding frames_tracked_def
  proof (intro allI impI)
    fix q g assume a: "page_table ?s q = Some g"
    show "page_id (pages ?s g) = q \<and> entries (bpm_replacer ?s) g \<noteq> None"
    proof (cases "q = p")
      case True
      with a r(4) show ?thesis by (simp add: parts)
    next
      case False
      with a have qg: "page_table s q = Some g" by (simp add: parts)
      with vacant_not_resident_any [OF inv vac, of q] have "g \<noteq> f" by auto
      with qg inv r(6) show ?thesis
        by (auto simp: parts pool_any_def frames_tracked_def)
    qed
  qed
  moreover have "pins_match ?s"
    unfolding pins_match_def
  proof (intro allI impI)
    fix g e' assume a: "entries (bpm_replacer ?s) g = Some e'"
    show "0 \<le> g \<and> g < int (pool_size ?s) \<and> 0 \<le> pin_count (pages ?s g) \<and>
          (evictable e' \<longleftrightarrow> pin_count (pages ?s g) = 0)"
    proof (cases "g = f")
      case True
      with a r(4,5) range show ?thesis by (simp add: parts)
    next
      case False
      with a r(6) have "entries (bpm_replacer s) g = Some e'" by simp
      with inv False show ?thesis by (simp add: parts pool_any_def pins_match_def)
    qed
  qed
  moreover have "free_ok ?s"
    using inv range(4) r(6) by (auto simp: free_ok_def parts pool_any_def)
  ultimately have "pool_any ?s"
    using inv r(2,3) by (simp add: pool_any_def parts)
  with r(1) rp show ?thesis by simp
qed

lemma pool_any_NewPgImp:
  assumes inv: "pool_any s" and n: "NewPgImp s = Inr (res, s')"
  shows "pool_any s'"
proof -
  obtain fo s1 where g: "GetAvailableFrame s = (fo, s1)" by (cases "GetAvailableFrame s")
  show ?thesis
  proof (cases fo)
    case None
    with g n have "s' = s1" by (simp add: NewPgImp_def)
    with GetAvailableFrame_none_any [OF inv g [unfolded None]] inv show ?thesis by simp
  next
    case (Some f)
    from GetAvailableFrame_some_any [OF inv g [unfolded Some]]
    have i1: "pool_any s1" and vac: "vacant s1 f" by simp_all
    from g Some n have "record_and_pin f (s1\<lparr>next_page_id := next_page_id s1 + 1,
        pages := (pages s1)(f := \<lparr>page_id = next_page_id s1, pin_count = 1,
                                   is_dirty = False, data = 0\<rparr>),
        page_table := (page_table s1)(next_page_id s1 \<mapsto> f)\<rparr>) = Inr s'"
      by (simp add: NewPgImp_def Let_def split: sum.splits)
    from install_any [OF i1 vac this] show ?thesis .
  qed
qed

lemma pin_again_any:
  assumes inv: "pool_any s" and res: "page_table s p = Some f"
  defines "s' \<equiv> s\<lparr>pages := (pages s)(f := (pages s f)\<lparr>pin_count := pin_count (pages s f) + 1\<rparr>)\<rparr>"
  assumes rp: "record_and_pin f s' = Inr s''"
  shows "pool_any s''"
proof -
  have parts: "pool_size s' = pool_size s" "bpm_replacer s' = bpm_replacer s"
    "free_list s' = free_list s" "page_table s' = page_table s"
    "pages s' = (pages s)(f := (pages s f)\<lparr>pin_count := pin_count (pages s f) + 1\<rparr>)"
    by (simp_all add: s'_def)
  from inv res obtain e0 where e0: "entries (bpm_replacer s) f = Some e0"
    by (auto simp: pool_any_def frames_tracked_def)
  with inv have range: "0 \<le> f" "f < int (pool_size s)" "0 \<le> pin_count (pages s f)"
    by (auto simp: pool_any_def pins_match_def)
  from inv have ok: "pos_ok (bpm_replacer s')" by (simp add: pool_any_def parts)
  from frame_accepted_any [OF inv range(2)]
  have v: "\<not> to_int32 (replacer_size (bpm_replacer s')) < f" by (simp add: parts)
  from record_and_pin_any [OF ok v] rp obtain r e where
    r: "record_and_pin f s' = Inr (s'\<lparr>bpm_replacer := r\<rparr>)" "pos_ok r"
       "replacer_size r = replacer_size (bpm_replacer s)"
       "entries r f = Some e" "\<not> evictable e"
       "\<forall>g. g \<noteq> f \<longrightarrow> entries r g = entries (bpm_replacer s) g"
    by (auto simp: parts)
  let ?s = "s'\<lparr>bpm_replacer := r\<rparr>"
  have "frames_tracked ?s"
    unfolding frames_tracked_def
  proof (intro allI impI)
    fix q g assume a: "page_table ?s q = Some g"
    then have qg: "page_table s q = Some g" by (simp add: parts)
    with inv have "page_id (pages s g) = q" "entries (bpm_replacer s) g \<noteq> None"
      by (auto simp: pool_any_def frames_tracked_def)
    with r(4,6) show "page_id (pages ?s g) = q \<and> entries (bpm_replacer ?s) g \<noteq> None"
      by (cases "g = f") (simp_all add: parts)
  qed
  moreover have "pins_match ?s"
    unfolding pins_match_def
  proof (intro allI impI)
    fix g e' assume a: "entries (bpm_replacer ?s) g = Some e'"
    show "0 \<le> g \<and> g < int (pool_size ?s) \<and> 0 \<le> pin_count (pages ?s g) \<and>
          (evictable e' \<longleftrightarrow> pin_count (pages ?s g) = 0)"
    proof (cases "g = f")
      case True
      with a r(4,5) range show ?thesis by (simp add: parts)
    next
      case False
      with a r(6) have "entries (bpm_replacer s) g = Some e'" by simp
      with inv False show ?thesis by (simp add: parts pool_any_def pins_match_def)
    qed
  qed
  moreover have "free_ok ?s"
  proof -
    from inv e0 have "f \<notin> set (free_list s)" by (auto simp: pool_any_def free_ok_def)
    with inv r(6) show ?thesis by (auto simp: free_ok_def parts pool_any_def)
  qed
  ultimately have "pool_any ?s"
    using inv r(2,3) by (simp add: pool_any_def parts)
  with r(1) rp show ?thesis by simp
qed

lemma pool_any_FetchPgImp:
  assumes inv: "pool_any s" and n: "FetchPgImp s p = Inr (res, s')"
  shows "pool_any s'"
proof (cases "page_table s p")
  case (Some f)
  from Some n have
    "record_and_pin f (s\<lparr>pages := (pages s)(f := (pages s f)\<lparr>pin_count := pin_count (pages s f) + 1\<rparr>)\<rparr>)
       = Inr s'"
    by (simp add: FetchPgImp_def Let_def split: sum.splits)
  from pin_again_any [OF inv Some this] show ?thesis .
next
  case None
  obtain fo s1 where g: "GetAvailableFrame s = (fo, s1)" by (cases "GetAvailableFrame s")
  show ?thesis
  proof (cases fo)
    case n0: None
    with g n None have "s' = s1" by (simp add: FetchPgImp_def)
    with GetAvailableFrame_none_any [OF inv g [unfolded n0]] inv show ?thesis by simp
  next
    case (Some f)
    from GetAvailableFrame_some_any [OF inv g [unfolded Some]]
    have i1: "pool_any s1" and vac: "vacant s1 f" by simp_all
    from g Some n None have "record_and_pin f (s1\<lparr>next_page_id := next_page_id s1,
        pages := (pages s1)(f := \<lparr>page_id = p, pin_count = 1,
                                   is_dirty = False, data = disk s1 p\<rparr>),
        page_table := (page_table s1)(p \<mapsto> f)\<rparr>) = Inr s'"
      by (simp add: FetchPgImp_def Let_def split: sum.splits)
    from install_any [OF i1 vac this] show ?thesis .
  qed
qed


text \<open>Changes of a page that leave its id and pin count alone keep the invariant.\<close>

lemma pool_any_touch:
  assumes inv: "pool_any s"
    and same: "\<And>g. page_id (pg g) = page_id (pages s g) \<and> pin_count (pg g) = pin_count (pages s g)"
  shows "pool_any (s\<lparr>pages := pg, disk := dk\<rparr>)"
  using inv same
  by (simp add: pool_any_def frames_tracked_def pins_match_def free_ok_def)

lemma pool_any_flush_frame: "pool_any s \<Longrightarrow> pool_any (flush_frame p f s)"
proof -
  assume inv: "pool_any s"
  have "flush_frame p f s =
      s\<lparr>pages := (pages s)(f := (pages s f)\<lparr>is_dirty := False\<rparr>),
        disk := (disk s)(p := data (pages s f))\<rparr>"
    by (simp add: flush_frame_def WritePage_def Let_def)
  moreover have "pool_any (s\<lparr>pages := (pages s)(f := (pages s f)\<lparr>is_dirty := False\<rparr>),
        disk := (disk s)(p := data (pages s f))\<rparr>)"
    by (rule pool_any_touch [OF inv]) simp
  ultimately show ?thesis by simp
qed

lemma pool_any_FlushPgImp: "pool_any s \<Longrightarrow> pool_any (snd (FlushPgImp s p))"
  by (simp add: FlushPgImp_def pool_any_flush_frame split: option.splits)

lemma pool_any_flush_fold:
  "pool_any s \<Longrightarrow>
   pool_any (fold (\<lambda>i s'. case page_table s' (page_id (pages s' (int i))) of
                    Some f \<Rightarrow> flush_frame (page_id (pages s' (int i))) f s'
                  | None \<Rightarrow> s') xs s)"
  by (induction xs arbitrary: s) (simp_all add: pool_any_flush_frame split: option.splits)

lemma pool_any_FlushAllPgsImp: "pool_any s \<Longrightarrow> pool_any (FlushAllPgsImp s)"
  unfolding FlushAllPgsImp_def by (rule pool_any_flush_fold)

lemma pool_any_UnpinPgImp:
  assumes inv: "pool_any s" and u: "UnpinPgImp s p dirty = Inr (res, s')"
  shows "pool_any s'"
proof (cases "page_table s p")
  case None
  with u inv show ?thesis by (simp add: UnpinPgImp_def)
next
  case (Some f)
  let ?s1 = "s\<lparr>pages := (pages s)(f := (pages s f)\<lparr>is_dirty := is_dirty (pages s f) \<or> dirty\<rparr>)\<rparr>"
  have s1: "(if dirty then s\<lparr>pages := (pages s)(f := (pages s f)\<lparr>is_dirty := True\<rparr>)\<rparr> else s) = ?s1"
    by (cases dirty) simp_all
  have "pool_any (s\<lparr>pages := (pages s)(f := (pages s f)\<lparr>is_dirty := is_dirty (pages s f) \<or> dirty\<rparr>),
                    disk := disk s\<rparr>)"
    by (rule pool_any_touch [OF inv]) simp
  then have i1: "pool_any ?s1" by simp
  from inv Some obtain e where e: "entries (bpm_replacer s) f = Some e"
    by (auto simp: pool_any_def frames_tracked_def)
  with inv have range: "0 \<le> f" "f < int (pool_size s)" "0 \<le> pin_count (pages s f)"
    "evictable e \<longleftrightarrow> pin_count (pages s f) = 0"
    by (auto simp: pool_any_def pins_match_def)
  show ?thesis
  proof (cases "pin_count (pages s f) = 0")
    case True
    with u Some have "s' = ?s1" by (simp add: UnpinPgImp_def s1)
    with i1 show ?thesis by simp
  next
    case False
    let ?s2 = "s\<lparr>pages := (pages s)(f := (pages s f)\<lparr>is_dirty := is_dirty (pages s f) \<or> dirty,
                                  pin_count := pin_count (pages s f) - 1\<rparr>)\<rparr>"
    show ?thesis
    proof (cases "pin_count (pages s f) = 1")
      case one: True
      from inv have ok: "pos_ok (bpm_replacer s)" by (simp add: pool_any_def)
      from SetEvictable_any [OF ok e frame_accepted_any [OF inv range(2)], of True]
      obtain r where r: "SetEvictable (bpm_replacer s) f True = Inr r" "pos_ok r"
        "replacer_size r = replacer_size (bpm_replacer s)"
        "entries r = (entries (bpm_replacer s))(f \<mapsto> e\<lparr>evictable := True\<rparr>)" by blast
      with u Some one have s': "s' = ?s2\<lparr>bpm_replacer := r\<rparr>"
        by (simp add: UnpinPgImp_def s1)
      have "frames_tracked s'"
        using inv unfolding s' frames_tracked_def pool_any_def by (auto simp: r(4))
      moreover have "pins_match s'"
        using inv one range unfolding s' pins_match_def pool_any_def by (auto simp: r(4))
      moreover have "free_ok s'"
        using inv e unfolding s' free_ok_def pool_any_def by (auto simp: r(4))
      ultimately show ?thesis using inv r(2,3) by (simp add: pool_any_def s')
    next
      case more: False
      with u Some False have s': "s' = ?s2" by (simp add: UnpinPgImp_def s1)
      have "frames_tracked s'"
        using inv unfolding s' frames_tracked_def pool_any_def by auto
      moreover have "pins_match s'"
        unfolding s' pins_match_def
      proof (intro allI impI)
        fix g e' assume a: "entries (bpm_replacer ?s2) g = Some e'"
        show "0 \<le> g \<and> g < int (pool_size ?s2) \<and> 0 \<le> pin_count (pages ?s2 g) \<and>
              (evictable e' \<longleftrightarrow> pin_count (pages ?s2 g) = 0)"
        proof (cases "g = f")
          case True
          with a e have "e' = e" by simp
          with True range False more show ?thesis by simp
        next
          case ne: False
          with a inv show ?thesis by (simp add: pool_any_def pins_match_def)
        qed
      qed
      moreover have "free_ok s'"
        using inv unfolding s' free_ok_def pool_any_def by auto
      ultimately show ?thesis using inv by (simp add: pool_any_def s')
    qed
  qed
qed

lemma pool_any_DeletePgImp:
  assumes inv: "pool_any s" and d: "DeletePgImp s p = Inr (res, s')"
  shows "pool_any s'"
proof (cases "page_table s p")
  case None
  with d inv show ?thesis by (simp add: DeletePgImp_def)
next
  case (Some f)
  show ?thesis
  proof (cases "pin_count (pages s f) > 0")
    case True
    with d Some inv show ?thesis by (simp add: DeletePgImp_def)
  next
    case False
    let ?r = "bpm_replacer s"
    from inv have ok: "pos_ok ?r" by (simp add: pool_any_def)
    from inv Some obtain e where e: "entries ?r f = Some e" and pf: "page_id (pages s f) = p"
      by (auto simp: pool_any_def frames_tracked_def)
    with inv have range: "0 \<le> f" "f < int (pool_size s)" "0 \<le> pin_count (pages s f)"
      "evictable e \<longleftrightarrow> pin_count (pages s f) = 0"
      by (auto simp: pool_any_def pins_match_def)
    with False have ev: "evictable e" by simp
    let ?r' = "?r\<lparr>hist_list := removeAll f (hist_list ?r),
                   cache_list := removeAll f (cache_list ?r),
                   entries := (entries ?r)(f := None),
                   curr_size := curr_size ?r - 1\<rparr>"
    from Remove_any [OF ok frame_accepted_any [OF inv range(2)] e ev] d Some False
    have rm: "Remove ?r f = Inr ?r'" by (auto simp: DeletePgImp_def Let_def)
    with d Some False
    have s': "s' = s\<lparr>page_table := (page_table s)(p := None), bpm_replacer := ?r',
                     free_list := free_list s @ [f], pages := (pages s)(f := empty_page)\<rparr>"
      by (simp add: DeletePgImp_def Let_def)
    have "pos_ok ?r'" by (rule pos_ok_drop [OF ok])
    moreover have "frames_tracked s'"
      unfolding frames_tracked_def
    proof (intro allI impI)
      fix q g assume a: "page_table s' q = Some g"
      then have q: "q \<noteq> p" "page_table s q = Some g" by (auto simp: s' split: if_splits)
      with inv have qg: "page_id (pages s g) = q" "entries ?r g \<noteq> None"
        by (auto simp: pool_any_def frames_tracked_def)
      with q(1) pf have "g \<noteq> f" by auto
      with qg show "page_id (pages s' g) = q \<and> entries (bpm_replacer s') g \<noteq> None"
        by (simp add: s')
    qed
    moreover have "pins_match s'"
      using inv unfolding s' pins_match_def pool_any_def by auto
    moreover have "free_ok s'"
    proof -
      from inv e have "f \<notin> set (free_list s)" by (auto simp: pool_any_def free_ok_def)
      with inv range show ?thesis unfolding s' free_ok_def pool_any_def by auto
    qed
    ultimately show ?thesis using inv by (simp add: pool_any_def s')
  qed
qed




text \<open>An operation on a pool that satisfies the invariant returns, or it stops at the
  erase through an iterator of the other list; it raises no exception.\<close>

lemma record_and_pin_out:
  assumes "pos_ok (bpm_replacer s)" and "\<not> to_int32 (replacer_size (bpm_replacer s)) < f"
  shows "record_and_pin f s = Inl UndefinedBehaviour \<or> (\<exists>s'. record_and_pin f s = Inr s')"
  using record_and_pin_any [OF assms] by blast

lemma NewPgImp_out:
  assumes inv: "pool_any s"
  shows "NewPgImp s = Inl UndefinedBehaviour \<or> (\<exists>res s'. NewPgImp s = Inr (res, s'))"
proof -
  obtain fo s1 where g: "GetAvailableFrame s = (fo, s1)" by (cases "GetAvailableFrame s")
  show ?thesis
  proof (cases fo)
    case None
    with g have "NewPgImp s = Inr (None, s1)" by (simp add: NewPgImp_def)
    then show ?thesis by blast
  next
    case (Some f)
    from GetAvailableFrame_some_any [OF inv g [unfolded Some]]
    have i1: "pool_any s1" and vac: "vacant s1 f" by simp_all
    let ?s4 = "s1\<lparr>next_page_id := next_page_id s1 + 1,
        pages := (pages s1)(f := \<lparr>page_id = next_page_id s1, pin_count = 1,
                                   is_dirty = False, data = 0\<rparr>),
        page_table := (page_table s1)(next_page_id s1 \<mapsto> f)\<rparr>"
    from i1 have ok: "pos_ok (bpm_replacer ?s4)" by (simp add: pool_any_def)
    from vac frame_accepted_any [OF i1, of f]
    have v: "\<not> to_int32 (replacer_size (bpm_replacer ?s4)) < f" by (simp add: vacant_def)
    from record_and_pin_out [OF ok v] show ?thesis
    proof
      assume "record_and_pin f ?s4 = Inl UndefinedBehaviour"
      with g Some have "NewPgImp s = Inl UndefinedBehaviour" by (simp add: NewPgImp_def Let_def)
      then show ?thesis ..
    next
      assume "\<exists>s'. record_and_pin f ?s4 = Inr s'"
      then obtain s' where "record_and_pin f ?s4 = Inr s'" ..
      with g Some have "NewPgImp s = Inr (Some (next_page_id s1, f), s')"
        by (simp add: NewPgImp_def Let_def)
      then show ?thesis by blast
    qed
  qed
qed

lemma FetchPgImp_out:
  assumes inv: "pool_any s"
  shows "FetchPgImp s p = Inl UndefinedBehaviour \<or> (\<exists>res s'. FetchPgImp s p = Inr (res, s'))"
proof (cases "page_table s p")
  case (Some f)
  let ?s1 = "s\<lparr>pages := (pages s)(f := (pages s f)\<lparr>pin_count := pin_count (pages s f) + 1\<rparr>)\<rparr>"
  from inv Some obtain e where e: "entries (bpm_replacer s) f = Some e"
    by (auto simp: pool_any_def frames_tracked_def)
  with inv have "f < int (pool_size s)" by (auto simp: pool_any_def pins_match_def)
  from frame_accepted_any [OF inv this]
  have v: "\<not> to_int32 (replacer_size (bpm_replacer ?s1)) < f" by simp
  from inv have ok: "pos_ok (bpm_replacer ?s1)" by (simp add: pool_any_def)
  from record_and_pin_out [OF ok v] show ?thesis
  proof
    assume "record_and_pin f ?s1 = Inl UndefinedBehaviour"
    with Some have "FetchPgImp s p = Inl UndefinedBehaviour" by (simp add: FetchPgImp_def Let_def)
    then show ?thesis ..
  next
    assume "\<exists>s'. record_and_pin f ?s1 = Inr s'"
    then obtain s' where "record_and_pin f ?s1 = Inr s'" ..
    with Some have "FetchPgImp s p = Inr (Some f, s')" by (simp add: FetchPgImp_def Let_def)
    then show ?thesis by blast
  qed
next
  case None
  obtain fo s1 where g: "GetAvailableFrame s = (fo, s1)" by (cases "GetAvailableFrame s")
  show ?thesis
  proof (cases fo)
    case n0: None
    with g None have "FetchPgImp s p = Inr (None, s1)" by (simp add: FetchPgImp_def)
    then show ?thesis by blast
  next
    case (Some f)
    from GetAvailableFrame_some_any [OF inv g [unfolded Some]]
    have i1: "pool_any s1" and vac: "vacant s1 f" by simp_all
    let ?s3 = "s1\<lparr>pages := (pages s1)(f := \<lparr>page_id = p, pin_count = 1,
                                   is_dirty = False, data = disk s1 p\<rparr>),
        page_table := (page_table s1)(p \<mapsto> f)\<rparr>"
    from i1 have ok: "pos_ok (bpm_replacer ?s3)" by (simp add: pool_any_def)
    from vac frame_accepted_any [OF i1, of f]
    have v: "\<not> to_int32 (replacer_size (bpm_replacer ?s3)) < f" by (simp add: vacant_def)
    from record_and_pin_out [OF ok v] show ?thesis
    proof
      assume "record_and_pin f ?s3 = Inl UndefinedBehaviour"
      with g Some None have "FetchPgImp s p = Inl UndefinedBehaviour"
        by (simp add: FetchPgImp_def Let_def)
      then show ?thesis ..
    next
      assume "\<exists>s'. record_and_pin f ?s3 = Inr s'"
      then obtain s' where "record_and_pin f ?s3 = Inr s'" ..
      with g Some None have "FetchPgImp s p = Inr (Some f, s')"
        by (simp add: FetchPgImp_def Let_def)
      then show ?thesis by blast
    qed
  qed
qed

lemma UnpinPgImp_out:
  assumes inv: "pool_any s"
  shows "\<exists>res s'. UnpinPgImp s p dirty = Inr (res, s')"
proof (cases "page_table s p")
  case None
  then have "UnpinPgImp s p dirty = Inr (False, s)" by (simp add: UnpinPgImp_def)
  then show ?thesis by blast
next
  case (Some f)
  from inv Some obtain e where e: "entries (bpm_replacer s) f = Some e"
    by (auto simp: pool_any_def frames_tracked_def)
  with inv have "f < int (pool_size s)" by (auto simp: pool_any_def pins_match_def)
  from frame_accepted_any [OF inv this] e
  obtain r where "SetEvictable (bpm_replacer s) f True = Inr r"
    by (cases "SetEvictable (bpm_replacer s) f True") (auto simp: SetEvictable_def)
  with Some show ?thesis
    by (cases dirty) (auto simp: UnpinPgImp_def Let_def)
qed

lemma DeletePgImp_out:
  assumes inv: "pool_any s"
  shows "DeletePgImp s p = Inl UndefinedBehaviour \<or> (\<exists>res s'. DeletePgImp s p = Inr (res, s'))"
proof (cases "page_table s p")
  case None
  then have "DeletePgImp s p = Inr (True, s)" by (simp add: DeletePgImp_def)
  then show ?thesis by blast
next
  case (Some f)
  show ?thesis
  proof (cases "pin_count (pages s f) > 0")
    case True
    with Some have "DeletePgImp s p = Inr (False, s)" by (simp add: DeletePgImp_def)
    then show ?thesis by blast
  next
    case False
    from inv have ok: "pos_ok (bpm_replacer s)" by (simp add: pool_any_def)
    from inv Some obtain e where e: "entries (bpm_replacer s) f = Some e"
      by (auto simp: pool_any_def frames_tracked_def)
    with inv have range: "f < int (pool_size s)" "0 \<le> pin_count (pages s f)"
      "evictable e \<longleftrightarrow> pin_count (pages s f) = 0"
      by (auto simp: pool_any_def pins_match_def)
    with False have ev: "evictable e" by simp
    from Remove_any [OF ok frame_accepted_any [OF inv range(1)] e ev] Some False
    show ?thesis by (auto simp: DeletePgImp_def Let_def)
  qed
qed

lemma pool_call_any:
  assumes inv: "pool_any s"
  shows "pool_call c s = Inl UndefinedBehaviour \<or> (\<exists>s'. pool_call c s = Inr s' \<and> pool_any s')"
proof (cases c)
  case Call_NewPage
  from NewPgImp_out [OF inv] show ?thesis
  proof
    assume "NewPgImp s = Inl UndefinedBehaviour"
    with Call_NewPage show ?thesis by (simp add: pool_call_def)
  next
    assume "\<exists>res s'. NewPgImp s = Inr (res, s')"
    then obtain res s' where r: "NewPgImp s = Inr (res, s')" by blast
    with pool_any_NewPgImp [OF inv r] Call_NewPage show ?thesis by (simp add: pool_call_def)
  qed
next
  case (Call_FetchPage p)
  from FetchPgImp_out [OF inv, of p] show ?thesis
  proof
    assume "FetchPgImp s p = Inl UndefinedBehaviour"
    with Call_FetchPage show ?thesis by (simp add: pool_call_def)
  next
    assume "\<exists>res s'. FetchPgImp s p = Inr (res, s')"
    then obtain res s' where r: "FetchPgImp s p = Inr (res, s')" by blast
    with pool_any_FetchPgImp [OF inv r] Call_FetchPage show ?thesis by (simp add: pool_call_def)
  qed
next
  case (Call_UnpinPage p dirty)
  from UnpinPgImp_out [OF inv] obtain res s' where r: "UnpinPgImp s p dirty = Inr (res, s')"
    by blast
  with pool_any_UnpinPgImp [OF inv r] Call_UnpinPage show ?thesis by (simp add: pool_call_def)
next
  case (Call_FlushPage p)
  with pool_any_FlushPgImp [OF inv] show ?thesis by (simp add: pool_call_def)
next
  case Call_FlushAllPages
  with pool_any_FlushAllPgsImp [OF inv] show ?thesis by (simp add: pool_call_def)
next
  case (Call_DeletePage p)
  from DeletePgImp_out [OF inv, of p] show ?thesis
  proof
    assume "DeletePgImp s p = Inl UndefinedBehaviour"
    with Call_DeletePage show ?thesis by (simp add: pool_call_def)
  next
    assume "\<exists>res s'. DeletePgImp s p = Inr (res, s')"
    then obtain res s' where r: "DeletePgImp s p = Inr (res, s')" by blast
    with pool_any_DeletePgImp [OF inv r] Call_DeletePage show ?thesis by (simp add: pool_call_def)
  qed
qed

lemma pool_run_any:
  "pool_any s \<Longrightarrow>
   pool_run cs s = Inl UndefinedBehaviour \<or> (\<exists>s'. pool_run cs s = Inr s' \<and> pool_any s')"
proof (induction cs arbitrary: s)
  case Nil
  then show ?case by simp
next
  case (Cons c cs)
  from pool_call_any [OF Cons.prems, of c] show ?case
  proof
    assume "pool_call c s = Inl UndefinedBehaviour"
    then show ?thesis by simp
  next
    assume "\<exists>s'. pool_call c s = Inr s' \<and> pool_any s'"
    then obtain s1 where s1: "pool_call c s = Inr s1" "pool_any s1" by blast
    from Cons.IH [OF s1(2)] s1(1) show ?thesis by simp
  qed
qed

lemma pool_any_evictable_iff_unpinned:
  assumes inv: "pool_any s"
  shows "evictable_iff_unpinned s"
  unfolding evictable_iff_unpinned_def
proof (intro allI impI)
  fix p f assume "page_table s p = Some f"
  with inv obtain e where e: "entries (bpm_replacer s) f = Some e"
    by (auto simp: pool_any_def frames_tracked_def)
  with inv have "evictable e \<longleftrightarrow> pin_count (pages s f) = 0"
    by (auto simp: pool_any_def pins_match_def)
  with e show "evictable_frame (bpm_replacer s) f \<longleftrightarrow> pin_count (pages s f) = 0"
    by (simp add: evictable_frame_def)
qed

lemma pool_any_victim_unpinned:
  assumes inv: "pool_any s"
  shows "victim_unpinned s"
  unfolding victim_unpinned_def
proof (intro allI impI)
  fix f r assume ev: "Evict (bpm_replacer s) = (Some f, r)"
  from inv have ok: "pos_ok (bpm_replacer s)" by (simp add: pool_any_def)
  from Evict_any [OF ok] ev have "evictable_frame (bpm_replacer s) f" by auto
  then obtain e where e: "entries (bpm_replacer s) f = Some e" "evictable e"
    by (auto simp: evictable_frame_def split: option.splits)
  with inv show "pin_count (pages s f) = 0"
    by (auto simp: pool_any_def pins_match_def)
qed

text \<open>
  Claim C1: take a pool of \<open>n < 2\<^sup>3\<^sup>1\<close> frames (the frame ids \<open>0, \<dots>, n - 1\<close> are then values
  of \<^verbatim>\<open>frame_id_t\<close>) with an LRU-\<open>K\<close> replacer, for any \<open>K\<close>. Every sequence of \<^verbatim>\<open>NewPgImp\<close>,
  \<^verbatim>\<open>FetchPgImp\<close>, \<^verbatim>\<open>UnpinPgImp\<close>, \<^verbatim>\<open>FlushPgImp\<close>, \<^verbatim>\<open>FlushAllPgsImp\<close> and \<^verbatim>\<open>DeletePgImp\<close>
  calls ends in a state in which a resident frame is evictable in the replacer if and
  only if the pin count of its page is zero, and in which the frame \<^verbatim>\<open>Evict\<close> would
  select, if any, holds a page whose pin count is zero. The one other outcome is that the
  run stops where the replacer erases through an iterator of the other list, after which
  no state is defined; this happens only for \<open>K \<le> 1\<close>. No call raises an exception.
\<close>

theorem resident_frame_evictable_iff_unpinned:
  assumes "n < 2 ^ 31"
  shows "case pool_run calls (BufferPoolManagerInstance_new n k dflt dsk) of
           Inr s \<Rightarrow> evictable_iff_unpinned s \<and> victim_unpinned s
         | Inl e \<Rightarrow> e = UndefinedBehaviour \<and> k < 2"
proof (cases "pool_run calls (BufferPoolManagerInstance_new n k dflt dsk)")
  case (Inr s)
  with pool_run_any [OF pool_any_new [OF assms], of calls k dflt dsk]
  have a: "pool_any s" by simp
  from pool_any_evictable_iff_unpinned [OF a] pool_any_victim_unpinned [OF a] Inr
  show ?thesis by simp
next
  case (Inl e)
  with pool_run_any [OF pool_any_new [OF assms], of calls k dflt dsk]
  have e: "e = UndefinedBehaviour" by simp
  have "k < 2"
  proof (rule ccontr)
    assume "\<not> k < 2"
    then have "2 \<le> k" by simp
    from pool_run_inv [OF pool_inv_new [OF assms this], of calls dflt dsk] Inl
    show False by simp
  qed
  with Inl e show ?thesis by simp
qed

text \<open>A pool of one frame with \<open>K = 1\<close>: a new page, unpinned.\<close>

definition lru_1_pool :: "replacer_error + nat BufferPoolManagerInstance" where
  "lru_1_pool = pool_run [Call_NewPage, Call_UnpinPage 0 False]
                  (BufferPoolManagerInstance_new 1 1 True (\<lambda>p. 0))"

lemma lru_1_pool_facts:
  "\<exists>s. lru_1_pool = Inr s \<and> page_table s 0 = Some 0 \<and> pin_count (pages s 0) = 0"
proof -
  have c: "to_int32 (Suc 0) = 1" by (simp add: to_int32_def)
  show ?thesis
    by (simp add: lru_1_pool_def pool_call_def NewPgImp_def
        BufferPoolManagerInstance_new_def GetAvailableFrame_def record_and_pin_def
        UnpinPgImp_def LRUKReplacer_new_def RecordAccess_def SetEvictable_def
        entry_at_def set_entry_def Let_def empty_page_def c)
qed

theorem resident_frame_evictable_iff_unpinned_witness:
  "(2::nat) < 2 ^ 31 \<and> (1::nat) < 2 ^ 31 \<and>
   (\<exists>s. two_page_pool = Inr s \<and> evictable_iff_unpinned s \<and> victim_unpinned s \<and>
        page_table s 0 = Some 0 \<and> evictable_frame (bpm_replacer s) 0 \<and>
        page_table s 1 = Some 1 \<and> \<not> evictable_frame (bpm_replacer s) 1 \<and>
        fst (Evict (bpm_replacer s)) = Some 0) \<and>
   (\<exists>s. lru_1_pool = Inr s \<and> evictable_iff_unpinned s \<and> victim_unpinned s \<and>
        page_table s 0 = Some 0 \<and> evictable_frame (bpm_replacer s) 0)"
proof -
  have h: "(2::nat) < 2 ^ 31" "(1::nat) < 2 ^ 31" by simp_all
  from two_page_pool_facts obtain s where s: "two_page_pool = Inr s"
    "page_table s 0 = Some 0" "page_table s 1 = Some 1"
    "pin_count (pages s 0) = 0" "pin_count (pages s 1) = 2"
    "fst (Evict (bpm_replacer s)) = Some 0"
    by blast
  from resident_frame_evictable_iff_unpinned [where n = 2 and calls = two_page_run and k = 2
      and dflt = True and dsk = "\<lambda>p. 0::nat", OF h(1)] s(1)
  have p: "evictable_iff_unpinned s" "victim_unpinned s"
    by (simp_all add: two_page_pool_def)
  from p(1) s(2,4) have e0: "evictable_frame (bpm_replacer s) 0"
    unfolding evictable_iff_unpinned_def by blast
  from p(1) s(3,5) have e1: "\<not> evictable_frame (bpm_replacer s) 1"
    unfolding evictable_iff_unpinned_def by auto
  from lru_1_pool_facts obtain u where u: "lru_1_pool = Inr u"
    "page_table u 0 = Some 0" "pin_count (pages u 0) = 0"
    by blast
  from resident_frame_evictable_iff_unpinned [where n = 1
      and calls = "[Call_NewPage, Call_UnpinPage 0 False]" and k = 1
      and dflt = True and dsk = "\<lambda>p. 0::nat", OF h(2)] u(1)
  have q: "evictable_iff_unpinned u" "victim_unpinned u"
    by (simp_all add: lru_1_pool_def)
  from q(1) u(2,3) have f0: "evictable_frame (bpm_replacer u) 0"
    unfolding evictable_iff_unpinned_def by blast
  from h s p e0 e1 u q f0 show ?thesis by blast
qed

section \<open>Extendible hash table\<close>

text \<open>
  \<^verbatim>\<open>extendible_hash_table.cpp\<close>. The directory \<^verbatim>\<open>dir_\<close> is a vector of shared pointers, and
  several slots may point to one bucket, so the buckets live in a store indexed by
  address and the directory holds addresses; \<^verbatim>\<open>std::make_shared\<close> takes the next unused
  address. The fields \<^verbatim>\<open>global_depth_\<close>, \<^verbatim>\<open>bucket_size_\<close>, \<^verbatim>\<open>num_buckets_\<close>, \<^verbatim>\<open>dir_\<close> of the
  table and \<^verbatim>\<open>size_\<close>, \<^verbatim>\<open>depth_\<close>, \<^verbatim>\<open>list_\<close> of a bucket appear without the trailing
  underscore (\<open>capacity\<close>, \<open>depth\<close> and \<open>items\<close> for the bucket). Depths are natural numbers:
  they start at zero and are only incremented. The hash function \<^verbatim>\<open>std::hash<K>\<close> is a
  parameter \<open>h\<close> that gives the hash value as a natural number.
\<close>

unbundle bit_operations_syntax

record ('k, 'v) Bucket =
  capacity :: nat
  depth :: nat
  items :: "('k \<times> 'v) list"

record ('k, 'v) ExtendibleHashTable =
  global_depth :: nat
  bucket_size :: nat
  num_buckets :: nat
  dir :: "nat list"
  buckets :: "nat \<Rightarrow> ('k, 'v) Bucket"
  next_bucket :: nat



text \<open>The conversion of an \<^verbatim>\<open>int\<close> to \<^verbatim>\<open>size_t\<close>.\<close>

definition to_size_t :: "int \<Rightarrow> nat" where
  "to_size_t i = nat (i mod 2 ^ 64)"

text \<open>\<^verbatim>\<open>int mask = (1 << global_depth_) - 1\<close>, brought back into the range of \<^verbatim>\<open>int\<close>, then
  \<^verbatim>\<open>hash & mask\<close> on \<^verbatim>\<open>size_t\<close>. The value is exact while the depth is at most 30.\<close>

definition IndexOf :: "('k \<Rightarrow> nat) \<Rightarrow> ('k, 'v) ExtendibleHashTable \<Rightarrow> 'k \<Rightarrow> nat" where
  "IndexOf h t key = h key AND to_size_t (to_int32 (2 ^ global_depth t - 1))"






fun erase_first :: "'k \<Rightarrow> ('k \<times> 'v) list \<Rightarrow> ('k \<times> 'v) list" where
  "erase_first key [] = []"
| "erase_first key (p # ps) = (if fst p = key then ps else p # erase_first key ps)"

definition Bucket_Remove :: "'k \<Rightarrow> ('k, 'v) Bucket \<Rightarrow> bool \<times> ('k, 'v) Bucket" where
  "Bucket_Remove key b =
     (if key \<in> fst ` set (items b) then (True, b\<lparr>items := erase_first key (items b)\<rparr>)
      else (False, b))"




definition ExtendibleHashTable_Remove ::
  "('k \<Rightarrow> nat) \<Rightarrow> ('k, 'v) ExtendibleHashTable \<Rightarrow> 'k
     \<Rightarrow> bool \<times> ('k, 'v) ExtendibleHashTable" where
  "ExtendibleHashTable_Remove h t key =
     (let a = dir t ! IndexOf h t key;
          (res, b) = Bucket_Remove key (buckets t a)
      in (res, t\<lparr>buckets := (buckets t)(a := b)\<rparr>))"









subsection \<open>Masks, buckets and the redirection loop\<close>




























subsection \<open>The invariant of the hash table\<close>


































subsection \<open>Inserts that do not return\<close>















end
